theory Spec2Isabelle
  imports Main "HOL-Library.Word" "HOL-Library.Multiset"
begin

unbundle bit_operations_syntax

section \<open>Bytes and little-endian readers\<close>

text \<open>
  The ROM image is a Python \<open>bytes\<close>/\<open>bytearray\<close>: a list of 8-bit values.
  \<open>le16\<close> and \<open>le32\<close> are \<open>struct.unpack_from("<H", b, o)[0]\<close> and
  \<open>struct.unpack_from("<I", b, o)[0]\<close>. Every call below sits behind the bounds check
  the source performs first, so the read is in range wherever it is evaluated.
\<close>

type_synonym byte = "8 word"

definition le16 :: "byte list \<Rightarrow> nat \<Rightarrow> nat" where
  "le16 b off = unat (b ! off) + 256 * unat (b ! (off + 1))"

definition le32 :: "byte list \<Rightarrow> nat \<Rightarrow> nat" where
  "le32 b off = unat (b ! off) + 256 * unat (b ! (off + 1))
     + 65536 * unat (b ! (off + 2)) + 16777216 * unat (b ! (off + 3))"

text \<open>Python's \<open>b[i:j]\<close> for \<open>0 \<le> i\<close>, \<open>0 \<le> j\<close>: clipped to the buffer, never raising.\<close>

definition py_slice :: "'a list \<Rightarrow> nat \<Rightarrow> nat \<Rightarrow> 'a list" where
  "py_slice xs i j = take (j - i) (drop i xs)"

section \<open>Number formatting used in location keys and tags\<close>

definition hex_digit :: "nat \<Rightarrow> char" where
  "hex_digit d = ''0123456789ABCDEF'' ! d"

function to_hex :: "nat \<Rightarrow> string" where
  "to_hex n = (if n < 16 then [hex_digit n] else to_hex (n div 16) @ [hex_digit (n mod 16)])"
  by pat_completeness auto
termination
  by (relation "measure id") auto

declare to_hex.simps [simp del]

function to_dec :: "nat \<Rightarrow> string" where
  "to_dec n = (if n < 10 then [hex_digit n] else to_dec (n div 10) @ [hex_digit (n mod 10)])"
  by pat_completeness auto
termination
  by (relation "measure id") auto

declare to_dec.simps [simp del]

text \<open>The format \<open>{w:04X}\<close>: upper-case hexadecimal, zero-padded to four digits.\<close>

definition hex04 :: "nat \<Rightarrow> string" where
  "hex04 w = replicate (4 - length (to_hex w)) CHR ''0'' @ to_hex w"

section \<open>Archive scanner (export\_d3\_npc\_names.py)\<close>

record ArchEntry =
  flags :: nat
  offset :: nat
  comp_len :: nat
  decomp_len :: nat

text \<open>
  The source's \<open>Archive\<close> also carries \<open>data\<close>, a reference to the scanned buffer itself;
  no consumer reads it, so the model keeps the other three fields.
\<close>

record Archive =
  base_off :: nat
  count :: nat
  entries :: "ArchEntry list"

text \<open>The entry loop of \<open>is_probable_tama_archive\<close>, over the indices still to read.\<close>

fun read_entries :: "byte list \<Rightarrow> nat \<Rightarrow> nat list \<Rightarrow> ArchEntry list option" where
  "read_entries buf abs_off [] = Some []"
| "read_entries buf abs_off (i # is) =
     (let e = abs_off + 4 + i * 16;
          fl = le32 buf e;
          off = le32 buf (e + 4);
          clen = le32 buf (e + 8);
          dlen = le32 buf (e + 12)
      in if abs_off + off > length buf then None
         else (case read_entries buf abs_off is of
                 None \<Rightarrow> None
               | Some es \<Rightarrow>
                   Some (\<lparr>flags = fl, offset = off, comp_len = clen, decomp_len = dlen\<rparr> # es)))"

definition is_probable_tama_archive :: "byte list \<Rightarrow> nat \<Rightarrow> Archive option" where
  "is_probable_tama_archive buf abs_off =
     (if abs_off + 4 > length buf then None
      else if le16 buf abs_off \<noteq> 0x3232 then None
      else let c = le16 buf (abs_off + 2)
           in if \<not> (1 \<le> c \<and> c \<le> 65535) then None
              else if abs_off + 4 + c * 16 > length buf then None
              else (case read_entries buf abs_off [0..<c] of
                      None \<Rightarrow> None
                    | Some es \<Rightarrow> Some \<lparr>base_off = abs_off, count = c, entries = es\<rparr>))"

text \<open>
  \<open>iter_all_archives\<close>: the top-level scan over \<open>range(0, len(buf)-4, 2)\<close>, then the
  queue loop. A queue item is \<open>(path, archive, depth)\<close>.
\<close>

type_synonym qitem = "string \<times> Archive \<times> nat"

definition top_archives :: "byte list \<Rightarrow> (string \<times> Archive) list" where
  "top_archives buf =
     concat (map (\<lambda>off. case is_probable_tama_archive buf off of
                            None \<Rightarrow> []
                          | Some arc \<Rightarrow> [(''off=0x'' @ to_hex off, arc)])
                 (filter (\<lambda>off. off mod 2 = 0) [0..<length buf - 4]))"

text \<open>The inner \<open>for idx, e in enumerate(arc.entries)\<close>: what one popped item appends.\<close>

definition children :: "byte list \<Rightarrow> string \<Rightarrow> Archive \<Rightarrow> nat \<Rightarrow> qitem list" where
  "children buf path arc depth =
     concat (map (\<lambda>(idx, e). case is_probable_tama_archive buf (base_off arc + offset e) of
                                 None \<Rightarrow> []
                               | Some sub \<Rightarrow> [(path @ ''/idx='' @ to_dec idx, sub, depth + 1)])
                 (enumerate 0 (entries arc)))"

function drain_queue :: "byte list \<Rightarrow> nat \<Rightarrow> qitem list \<Rightarrow> (string \<times> Archive) list" where
  "drain_queue buf max_depth [] = []"
| "drain_queue buf max_depth ((path, arc, depth) # q) =
     (path, arc) #
       (if depth \<ge> max_depth then drain_queue buf max_depth q
        else drain_queue buf max_depth (q @ children buf path arc depth))"
  by pat_completeness auto

lemma children_depth: "(p, a, d) \<in> set (children buf path arc depth) \<Longrightarrow> d = depth + 1"
  by (auto simp: children_def split: option.splits)

text \<open>
  The loop ends: a popped item is replaced by items one level deeper, and no item is
  expanded at \<open>max_depth\<close>. The multiset of remaining levels decreases.
\<close>

termination drain_queue
proof (relation "inv_image (mult {(a, b). a < b})
                   (\<lambda>(buf, md, q). mset (map (\<lambda>(p, a, d). Suc md - d) q))")
  show "wf (inv_image (mult {(a::nat, b). a < b})
              (\<lambda>(buf, md, q). mset (map (\<lambda>(p, a, d). Suc md - d) q)))"
    by (intro wf_inv_image wf_mult) (simp add: wf_less)
next
  fix buf :: "byte list" and max_depth depth :: nat and path :: string
    and arc :: Archive and q :: "qitem list"
  have "(mset (map (\<lambda>(p, a, d). Suc max_depth - d) q) + {#},
         mset (map (\<lambda>(p, a, d). Suc max_depth - d) q) + {#Suc max_depth - depth#})
          \<in> mult {(a, b). a < b}"
    by (rule one_step_implies_mult) auto
  then show "((buf, max_depth, q), buf, max_depth, (path, arc, depth) # q)
       \<in> inv_image (mult {(a, b). a < b})
            (\<lambda>(buf, md, q). mset (map (\<lambda>(p, a, d). Suc md - d) q))"
    by simp
next
  fix buf :: "byte list" and max_depth depth :: nat and path :: string
    and arc :: Archive and q :: "qitem list"
  assume "\<not> max_depth \<le> depth"
  then have lt: "depth < max_depth" by simp
  have "(mset (map (\<lambda>(p, a, d). Suc max_depth - d) q)
           + mset (map (\<lambda>(p, a, d). Suc max_depth - d) (children buf path arc depth)),
         mset (map (\<lambda>(p, a, d). Suc max_depth - d) q) + {#Suc max_depth - depth#})
          \<in> mult {(a, b). a < b}"
  proof (rule one_step_implies_mult)
    show "{#Suc max_depth - depth#} \<noteq> {#}" by simp
    show "\<forall>k\<in>#mset (map (\<lambda>(p, a, d). Suc max_depth - d) (children buf path arc depth)).
            \<exists>j\<in>#{#Suc max_depth - depth#}. (k, j) \<in> {(a, b). a < b}"
      using lt by (auto dest!: children_depth)
  qed
  then show "((buf, max_depth, q @ children buf path arc depth), buf, max_depth,
              (path, arc, depth) # q)
       \<in> inv_image (mult {(a, b). a < b})
            (\<lambda>(buf, md, q). mset (map (\<lambda>(p, a, d). Suc md - d) q))"
    by simp
qed

definition iter_all_archives :: "byte list \<Rightarrow> nat \<Rightarrow> (string \<times> Archive) list" where
  "iter_all_archives buf max_depth =
     drain_queue buf max_depth (map (\<lambda>(p, a). (p, a, 0)) (top_archives buf))"

text \<open>
  What the claims about the traversal speak of: the queue items that can be reached from the
  items of a queue \<open>q\<close> by going, from an item below the depth limit, to an entry whose
  absolute offset holds a valid archive header. The entry's flags are not looked at.
\<close>

inductive reachable :: "byte list \<Rightarrow> nat \<Rightarrow> qitem list \<Rightarrow> qitem \<Rightarrow> bool"
  for buf :: "byte list" and max_depth :: nat and q :: "qitem list" where
  queued: "x \<in> set q \<Longrightarrow> reachable buf max_depth q x"
| nested: "reachable buf max_depth q (pth, arc, depth) \<Longrightarrow> depth < max_depth \<Longrightarrow>
     i < length (entries arc) \<Longrightarrow>
     is_probable_tama_archive buf (base_off arc + offset (entries arc ! i)) = Some sub \<Longrightarrow>
     reachable buf max_depth q (pth @ ''/idx='' @ to_dec i, sub, depth + 1)"

code_pred reachable .

section \<open>Text archive codec\<close>

record TextArchive =
  ta_base_off :: nat
  path :: string
  n_strings :: nat
  offsets_word :: "nat list"
  ta_data :: "byte list"

text \<open>The loop \<open>for w in offs: if w<prev or w*2>=len(view): return None; prev=w\<close>.\<close>

fun offsets_ok :: "nat \<Rightarrow> nat \<Rightarrow> nat list \<Rightarrow> bool" where
  "offsets_ok len prev [] = True"
| "offsets_ok len prev (w # ws) =
     (if w < prev \<or> w * 2 \<ge> len then False else offsets_ok len w ws)"

text \<open>\<open>is_probable_text_archive\<close> of export\_d3\_npc\_names.py (lines 99--109).\<close>

definition is_probable_text_archive :: "byte list \<Rightarrow> TextArchive option" where
  "is_probable_text_archive view =
     (if length view < 4 then None
      else let n = le16 view 0
           in if \<not> (1 \<le> n \<and> n \<le> 20000) then None
              else if 2 + 2 * n > length view then None
              else let offs = map (\<lambda>i. le16 view (2 + 2 * i)) [0..<n]
                   in if \<not> offsets_ok (length view) 0 offs then None
                      else Some \<lparr>ta_base_off = 0, path = [], n_strings = n,
                                  offsets_word = offs, ta_data = view\<rparr>)"

definition parse_text_archive :: "byte list \<Rightarrow> nat \<Rightarrow> string \<Rightarrow> TextArchive option" where
  "parse_text_archive view abs_off pth =
     (case is_probable_text_archive view of
        Some ta \<Rightarrow> Some (ta\<lparr>ta_base_off := abs_off, path := pth\<rparr>)
      | None \<Rightarrow> None)"

text \<open>
  The sibling validator of export\_d3\_data.py and export\_digivice\_data.py adds a second
  loop: each string must hold a zero code at a byte distance of at most 4096 from its
  start. \<open>has_terminator view w p\<close> is its inner \<open>while\<close>, started at \<open>p = w*2\<close>.
\<close>

function has_terminator :: "byte list \<Rightarrow> nat \<Rightarrow> nat \<Rightarrow> bool" where
  "has_terminator view w p =
     (if p + 2 \<le> length view \<and> p - w * 2 \<le> 4096
      then (if le16 view p = 0 then True else has_terminator view w (p + 2))
      else False)"
  by pat_completeness auto
termination
  by (relation "measure (\<lambda>(view, w, p). length view - p)") auto

declare has_terminator.simps [simp del]

definition is_probable_text_archive_checked :: "byte list \<Rightarrow> TextArchive option" where
  "is_probable_text_archive_checked view =
     (if length view < 4 then None
      else let n = le16 view 0
           in if \<not> (1 \<le> n \<and> n \<le> 20000) then None
              else if 2 + 2 * n > length view then None
              else let offs = map (\<lambda>i. le16 view (2 + 2 * i)) [0..<n]
                   in if \<not> offsets_ok (length view) 0 offs then None
                      else if \<not> list_all (\<lambda>w. has_terminator view w (w * 2)) offs then None
                      else Some \<lparr>ta_base_off = 0, path = [], n_strings = n,
                                  offsets_word = offs, ta_data = view\<rparr>)"

text \<open>
  \<open>decode_string\<close>: 16-bit codes from \<open>start\<close> up to a zero code or the end of the
  view; codes from \<open>0xF000\<close> are dropped; every other code becomes a tag \<open><XXXX>\<close>.
\<close>

function decode_tags :: "byte list \<Rightarrow> nat \<Rightarrow> string list" where
  "decode_tags view p =
     (if p + 2 \<le> length view
      then (let w = le16 view p
            in if w = 0 then []
               else if w \<ge> 0xF000 then decode_tags view (p + 2)
               else (''<'' @ hex04 w @ ''>'') # decode_tags view (p + 2))
      else [])"
  by pat_completeness auto
termination
  by (relation "measure (\<lambda>(view, p). length view - p)") auto

declare decode_tags.simps [simp del]

definition decode_string :: "byte list \<Rightarrow> nat \<Rightarrow> string" where
  "decode_string view start = concat (decode_tags view start)"

text \<open>
  The consumer's classification of one entry (\<open>extract_names\<close>, lines 157--163):
  compressed entries and empty entries are skipped, the rest are offered to the
  text-archive validator.
\<close>

definition classify_entry ::
  "byte list \<Rightarrow> string \<Rightarrow> Archive \<Rightarrow> nat \<Rightarrow> ArchEntry \<Rightarrow> TextArchive option" where
  "classify_entry bin_bytes pth arc idx e =
     (if (flags e AND 0xF) \<noteq> 0 then None
      else let abs_off = base_off arc + offset e;
               len = (if decomp_len e > 0 then decomp_len e else comp_len e)
           in if len \<le> 0 then None
              else parse_text_archive (py_slice bin_bytes abs_off (abs_off + len)) abs_off
                     (pth @ ''/idx='' @ to_dec idx))"

section \<open>Errors and in-place writes\<close>

text \<open>The exceptions the modelled code can raise.\<close>

datatype py_error =
  StructError | ValueError | AssertionError | RuntimeError | StopIteration | IndexError

text \<open>
  \<open>struct.pack_into("<H", data, off, v)\<close>: raises \<open>struct.error\<close> when \<open>v\<close> is not
  in \<open>0..65535\<close> or when two bytes do not fit at \<open>off\<close>; a negative \<open>off\<close> counts from
  the end of the buffer.
\<close>

definition pack_into_H :: "byte list \<Rightarrow> int \<Rightarrow> int \<Rightarrow> py_error + byte list" where
  "pack_into_H data off v =
     (if v < 0 \<or> v > 65535 then Inl StructError
      else let n = int (length data);
               pos = (if off < 0 then off + n else off)
           in if pos < 0 \<or> n - pos < 2 then Inl StructError
              else Inr (data[nat pos := word_of_int (v mod 256),
                             nat pos + 1 := word_of_int (v div 256)]))"

text \<open>
  Python's list indexing \<open>xs[i]\<close>: a negative index counts from the end, and an index
  outside \<open>-len(xs) .. len(xs) - 1\<close> raises \<open>IndexError\<close>.
\<close>

definition py_index :: "'a list \<Rightarrow> int \<Rightarrow> py_error + 'a" where
  "py_index xs i =
     (let n = int (length xs)
      in if i < - n \<or> i \<ge> n then Inl IndexError
         else Inr (xs ! nat (if i < 0 then i + n else i)))"

section \<open>Digivice partner-data importer: the power field (import\_digivice\_data.py)\<close>

definition BASE_STATS :: int where "BASE_STATS = 0x97F2A"
definition RECORD_SIZE :: int where "RECORD_SIZE = 10"
definition MAX_POWER :: int where "MAX_POWER = 225"

text \<open>
  Lines 185--195 of \<open>main\<close>, for a row whose \<open>SlotIndex\<close> and \<open>Power\<close> columns parsed to
  the integers \<open>slot_index\<close> and \<open>new_power\<close>.
\<close>

definition update_power :: "byte list \<Rightarrow> int \<Rightarrow> int \<Rightarrow> py_error + byte list" where
  "update_power data slot_index new_power =
     (let slot = slot_index - 1;
          write_rec = BASE_STATS + (slot + 1) * RECORD_SIZE
      in if new_power > MAX_POWER then Inr data
         else pack_into_H data write_rec new_power)"

text \<open>
  Python's slice assignment \<open>data[i:j] = x\<close> on a \<open>bytearray\<close>, for \<open>0 \<le> i\<close> and
  \<open>0 \<le> j\<close>: both bounds are clipped to the length, the clipped range is replaced by
  \<open>x\<close>, whatever the length of \<open>x\<close>. A range that reaches beyond the end makes the
  buffer grow.
\<close>

definition py_slice_assign :: "'a list \<Rightarrow> nat \<Rightarrow> nat \<Rightarrow> 'a list \<Rightarrow> 'a list" where
  "py_slice_assign data i j x = take i data @ x @ drop (max i j) data"

section \<open>Replacement tables and tag encoding\<close>

text \<open>
  \<open>str.replace(a, b)\<close>: non-overlapping occurrences of \<open>a\<close>, found left to right, are
  replaced by \<open>b\<close>; for an empty \<open>a\<close>, \<open>b\<close> is inserted before every character and at
  the end.
\<close>

function replace_scan :: "string \<Rightarrow> string \<Rightarrow> string \<Rightarrow> string" where
  "replace_scan s a b =
     (if s = [] then []
      else if a \<noteq> [] \<and> take (length a) s = a then b @ replace_scan (drop (length a) s) a b
      else hd s # replace_scan (tl s) a b)"
  by pat_completeness auto
termination
  by (relation "measure (\<lambda>(s, a, b). length s)") auto

declare replace_scan.simps [simp del]

definition py_replace :: "string \<Rightarrow> string \<Rightarrow> string \<Rightarrow> string" where
  "py_replace s a b =
     (if a = [] then b @ concat (map (\<lambda>c. c # b) s) else replace_scan s a b)"

type_synonym rules = "(string \<times> string) list"

definition apply_rules :: "string \<Rightarrow> rules \<Rightarrow> string" where
  "apply_rules s rs = foldl (\<lambda>t (a, b). py_replace t a b) s rs"

text \<open>The regular expression \<open><([0-9A-Fa-f]{4})>\<close> matched at the head of \<open>s\<close>.\<close>

definition hex_val :: "char \<Rightarrow> nat option" where
  "hex_val c =
     (let k = of_char c :: nat
      in if 48 \<le> k \<and> k \<le> 57 then Some (k - 48)
         else if 65 \<le> k \<and> k \<le> 70 then Some (k - 55)
         else if 97 \<le> k \<and> k \<le> 102 then Some (k - 87)
         else None)"

definition match_tag :: "string \<Rightarrow> nat option" where
  "match_tag s =
     (if 6 \<le> length s \<and> s ! 0 = CHR ''<'' \<and> s ! 5 = CHR ''>''
      then (case (hex_val (s ! 1), hex_val (s ! 2), hex_val (s ! 3), hex_val (s ! 4)) of
              (Some a, Some b, Some c, Some d) \<Rightarrow> Some (((a * 16 + b) * 16 + c) * 16 + d)
            | _ \<Rightarrow> None)
      else None)"

text \<open>
  \<open>encode_to_codes\<close> of import\_d3\_npc\_names.py: a concatenation of tags; a zero tag is
  dropped; anything else raises \<open>ValueError\<close>.
\<close>

function encode_to_codes :: "string \<Rightarrow> py_error + nat list" where
  "encode_to_codes s =
     (if s = [] then Inr []
      else if hd s = CHR ''<''
      then (case match_tag s of
              None \<Rightarrow> Inl ValueError
            | Some v \<Rightarrow>
                (case encode_to_codes (drop 6 s) of
                   Inl e \<Rightarrow> Inl e
                 | Inr out \<Rightarrow> Inr (if v \<noteq> 0 then v # out else out)))
      else Inl ValueError)"
  by pat_completeness auto
termination
  by (relation "measure length") auto

declare encode_to_codes.simps [simp del]

text \<open>
  \<open>encode_tagstring_to_bytes\<close> of the Digivice importers collects every tag value, a
  zero one as well.
\<close>

function encode_tagstring_codes :: "string \<Rightarrow> py_error + nat list" where
  "encode_tagstring_codes s =
     (if s = [] then Inr []
      else if hd s = CHR ''<''
      then (case match_tag s of
              None \<Rightarrow> Inl ValueError
            | Some v \<Rightarrow>
                (case encode_tagstring_codes (drop 6 s) of
                   Inl e \<Rightarrow> Inl e
                 | Inr out \<Rightarrow> Inr (v # out)))
      else Inl ValueError)"
  by pat_completeness auto
termination
  by (relation "measure length") auto

declare encode_tagstring_codes.simps [simp del]

text \<open>
  \<open>encode_from_tagstring\<close> of import\_d3\_data.py: a newline becomes \<open>0xF000\<close>, a tag
  \<open><Fxxx>\<close> becomes \<open>0xF000 | xxx\<close>, another tag its value unless zero.
\<close>

definition match_tag_f :: "string \<Rightarrow> nat option" where
  "match_tag_f s =
     (if 6 \<le> length s \<and> s ! 0 = CHR ''<'' \<and> s ! 1 = CHR ''F'' \<and> s ! 5 = CHR ''>''
      then (case (hex_val (s ! 2), hex_val (s ! 3), hex_val (s ! 4)) of
              (Some b, Some c, Some d) \<Rightarrow> Some ((b * 16 + c) * 16 + d)
            | _ \<Rightarrow> None)
      else None)"

function encode_from_tagstring :: "string \<Rightarrow> py_error + nat list" where
  "encode_from_tagstring s =
     (if s = [] then Inr []
      else if hd s = CHR 0x0A
      then (case encode_from_tagstring (tl s) of
              Inl e \<Rightarrow> Inl e
            | Inr out \<Rightarrow> Inr (0xF000 # out))
      else if hd s = CHR ''<''
      then (case match_tag_f s of
              Some x \<Rightarrow>
                (case encode_from_tagstring (drop 6 s) of
                   Inl e \<Rightarrow> Inl e
                 | Inr out \<Rightarrow> Inr ((0xF000 OR x) # out))
            | None \<Rightarrow>
                (case match_tag s of
                   None \<Rightarrow> Inl ValueError
                 | Some v \<Rightarrow>
                     (case encode_from_tagstring (drop 6 s) of
                        Inl e \<Rightarrow> Inl e
                      | Inr out \<Rightarrow> Inr (if v \<noteq> 0 then v # out else out))))
      else Inl ValueError)"
  by pat_completeness auto
termination
  by (relation "measure length") auto

declare encode_from_tagstring.simps [simp del]

text \<open>\<open>encode_bytes\<close>: each code as a little-endian 16-bit word, then the zero terminator.\<close>

definition pack16 :: "nat \<Rightarrow> byte list" where
  "pack16 c = [of_nat (c mod 256), of_nat (c div 256)]"

definition encode_bytes :: "nat list \<Rightarrow> byte list" where
  "encode_bytes codes = concat (map pack16 codes) @ [0, 0]"

text \<open>
  \<open>string_capacity\<close> (import\_d3\_npc\_names.py) is the plain difference;
  \<open>string_capacity_bytes\<close> (import\_d3\_data.py) cuts it off at 0.
\<close>

definition string_capacity :: "TextArchive \<Rightarrow> nat \<Rightarrow> int" where
  "string_capacity ta si =
     (let start = offsets_word ta ! si * 2;
          fin = (if si + 1 < n_strings ta then offsets_word ta ! (si + 1) * 2
                 else length (ta_data ta))
      in int fin - int start)"

definition string_capacity_bytes :: "TextArchive \<Rightarrow> nat \<Rightarrow> int" where
  "string_capacity_bytes ta si = max 0 (string_capacity ta si)"

section \<open>Name importers\<close>

definition FORBIDDEN_CHARS_npc :: "char set" where
  "FORBIDDEN_CHARS_npc =
     set (''+-:<>?!~'' @ [CHR 0x60, CHR 0x27, CHR 0x22] @ ''[]{}'' @ [CHR 0x5C] @ ''|@#$%^&*,'')"

definition FORBIDDEN_CHARS :: "char set" where
  "FORBIDDEN_CHARS = insert CHR ''='' FORBIDDEN_CHARS_npc"

definition decode_old_string :: "TextArchive \<Rightarrow> nat \<Rightarrow> rules \<Rightarrow> string" where
  "decode_old_string ta si fwd_rules =
     apply_rules (decode_string (ta_data ta) (offsets_word ta ! si * 2)) fwd_rules"

text \<open>
  import\_d3\_npc\_names.py, lines 246--284: the body of the loop over the requested names,
  for one pair \<open>(si, new_name)\<close>. The result is the buffer and whether it was written.
\<close>

definition npc_name_step ::
  "byte list \<Rightarrow> TextArchive \<Rightarrow> rules \<Rightarrow> rules \<Rightarrow> nat \<times> string \<Rightarrow> byte list \<times> bool" where
  "npc_name_step data ta fwd inv_rules = (\<lambda>(si, new_name).
     if si \<ge> n_strings ta then (data, False)
     else if \<exists>c \<in> set new_name. c \<in> FORBIDDEN_CHARS_npc then (data, False)
     else let old_name = decode_old_string ta si fwd
          in if length new_name \<noteq> length old_name then (data, False)
             else (case encode_to_codes (apply_rules new_name inv_rules) of
                     Inl e \<Rightarrow> (data, False)
                   | Inr codes \<Rightarrow>
                       let enc = encode_bytes codes;
                           cap = string_capacity ta si
                       in if int (length enc) > cap then (data, False)
                          else let write_off = ta_base_off ta + offsets_word ta ! si * 2
                               in (py_slice_assign data write_off (write_off + length enc) enc,
                                   True)))"

text \<open>
  import\_d3\_data.py, lines 308--331: one CSV row, with the overflow policy of the command
  line. \<open>encode_from_tagstring\<close> is not guarded there, so its \<open>ValueError\<close> ends the run.
\<close>

datatype overflow_policy = Reject | Truncate

definition d3_name_step ::
  "overflow_policy \<Rightarrow> byte list \<Rightarrow> (TextArchive \<times> nat) list \<Rightarrow> rules \<Rightarrow> int \<times> string
     \<Rightarrow> py_error + byte list \<times> bool" where
  "d3_name_step overflow data index_map inv_rules = (\<lambda>(si, name).
     if \<exists>ch \<in> set name. ch \<in> FORBIDDEN_CHARS then Inr (data, False)
     else if \<not> (0 \<le> si \<and> si < int (length index_map)) then Inr (data, False)
     else let (ta, slot) = index_map ! nat si
          in (case encode_from_tagstring (apply_rules name inv_rules) of
                Inl e \<Rightarrow> Inl e
              | Inr codes \<Rightarrow>
                  let enc = encode_bytes codes;
                      cap = string_capacity_bytes ta slot;
                      abs_write = ta_base_off ta + offsets_word ta ! slot * 2
                  in if int (length enc) > cap
                     then (case overflow of
                             Truncate \<Rightarrow>
                               let fit = nat (max 0 (cap div 2 - 1));
                                   enc' = encode_bytes (take fit codes)
                               in Inr (py_slice_assign data abs_write (abs_write + length enc')
                                         enc', True)
                           | Reject \<Rightarrow> Inr (data, False))
                     else Inr (py_slice_assign data abs_write (abs_write + length enc) enc,
                               True)))"

text \<open>
  The two Digivice importers share the name update of one CSV row
  (import\_digivice\_npc\_names.py, lines 180--203; import\_digivice\_data.py, lines 198--214),
  run against the name archive \<open>(base_off, view, n_strings, offsets)\<close> found before the
  loop. \<open>old_slot\<close> is the part that locates the existing string: \<open>old_start\<close> and
  \<open>old_bytes = view[old_start:old_end]\<close>, with the list accesses \<open>offsets[si]\<close> and
  \<open>offsets[si+1]\<close> as Python makes them.
\<close>

definition old_slot :: "byte list \<Rightarrow> nat \<Rightarrow> nat list \<Rightarrow> int \<Rightarrow> py_error + nat \<times> byte list" where
  "old_slot view n offsets si =
     (case py_index offsets si of
        Inl e \<Rightarrow> Inl e
      | Inr w0 \<Rightarrow>
          let old_start = w0 * 2
          in if si + 1 < int n
             then (case py_index offsets (si + 1) of
                     Inl e \<Rightarrow> Inl e
                   | Inr w1 \<Rightarrow> Inr (old_start, py_slice view old_start (w1 * 2)))
             else Inr (old_start, py_slice view old_start (length view)))"

text \<open>
  The result is the buffer and whether the name was written. The bare \<open>except\<close> around
  the encoder turns its \<open>ValueError\<close> into a skipped row; an \<open>IndexError\<close> of the list
  accesses is not caught and ends the run.
\<close>

definition digivice_name_update ::
  "byte list \<Rightarrow> nat \<Rightarrow> byte list \<Rightarrow> nat \<Rightarrow> nat list \<Rightarrow> rules \<Rightarrow> int \<times> string
     \<Rightarrow> py_error + byte list \<times> bool" where
  "digivice_name_update data base view n offsets rs = (\<lambda>(si, new_name).
     if \<exists>c \<in> set new_name. c \<in> FORBIDDEN_CHARS then Inr (data, False)
     else (case old_slot view n offsets si of
             Inl e \<Rightarrow> Inl e
           | Inr (old_start, old_bytes) \<Rightarrow>
               (case encode_tagstring_codes (apply_rules new_name rs) of
                  Inl e \<Rightarrow> Inr (data, False)
                | Inr codes \<Rightarrow>
                    let enc = encode_bytes codes
                    in if length enc \<noteq> length old_bytes then Inr (data, False)
                       else let abs_pos = base + old_start
                            in Inr (py_slice_assign data abs_pos (abs_pos + length enc) enc,
                                    True))))"

text \<open>
  import\_digivice\_npc\_names.py, lines 175--203: one CSV row \<open>(string_index, name)\<close>. Only
  the listed NPC strings are touched. The source writes out the indexes 139 to 181 of
  \<open>DIGIVICE_NPC_INDEXES\<close> one by one.
\<close>

definition DIGIVICE_NPC_INDEXES :: "int list" where
  "DIGIVICE_NPC_INDEXES =
     [95, 102, 106, 109, 112, 115, 118] @ [139..181]"

definition digivice_npc_row ::
  "byte list \<Rightarrow> nat \<Rightarrow> byte list \<Rightarrow> nat \<Rightarrow> nat list \<Rightarrow> rules \<Rightarrow> int \<times> string
     \<Rightarrow> py_error + byte list \<times> bool" where
  "digivice_npc_row data base view n offsets rs = (\<lambda>(si, new_name).
     if si \<notin> set DIGIVICE_NPC_INDEXES then Inr (data, False)
     else if si \<ge> int n then Inr (data, False)
     else digivice_name_update data base view n offsets rs (si, new_name))"

text \<open>
  import\_digivice\_data.py, lines 181--214: one CSV row
  \<open>(string_index, SlotIndex, Power, DigimonName)\<close>. There is no list of allowed indexes
  here, and a negative \<open>string_index\<close> passes the test \<open>si >= n_strings\<close>. The Power
  update comes first; its \<open>struct.error\<close> ends the run. The name update then runs on the
  buffer the Power update left.
\<close>

definition digivice_data_row ::
  "byte list \<Rightarrow> nat \<Rightarrow> byte list \<Rightarrow> nat \<Rightarrow> nat list \<Rightarrow> rules
     \<Rightarrow> int \<times> int \<times> int \<times> string \<Rightarrow> py_error + byte list \<times> bool" where
  "digivice_data_row data base view n offsets rs = (\<lambda>(si, slot_index, new_power, new_name).
     if si \<ge> int n then Inr (data, False)
     else (case update_power data slot_index new_power of
             Inl e \<Rightarrow> Inl e
           | Inr data1 \<Rightarrow> digivice_name_update data1 base view n offsets rs (si, new_name)))"

text \<open>
  A 10-byte text archive: \<open>count = 1\<close>, \<open>offsets = [2]\<close>, and string 0 made of the codes
  \<open>0x0041\<close>, \<open>0xF001\<close> and the terminator, so that its slot spans 6 bytes. The replacement
  table maps the tags \<open><0041>\<close>, \<open><0042>\<close>, \<open><0043>\<close> to the letters A, B, C and the
  pair \<open><0042><0043>\<close> to the letter D.
\<close>

definition slack_view :: "byte list" where
  "slack_view = [1, 0,   2, 0,   0x41, 0,   0x01, 0xF0,   0, 0]"

definition slack_text :: TextArchive where
  "slack_text = \<lparr>ta_base_off = 0, path = [], n_strings = 1, offsets_word = [2],
                  ta_data = slack_view\<rparr>"

definition fwd_ABC :: rules where
  "fwd_ABC = [(''<0042><0043>'', ''D''), (''<0041>'', ''A''), (''<0042>'', ''B''),
              (''<0043>'', ''C'')]"

definition inv_ABC :: rules where
  "inv_ABC = [(''D'', ''<0042><0043>''), (''A'', ''<0041>''), (''B'', ''<0042>''),
              (''C'', ''<0043>'')]"

text \<open>
  A 14-byte text archive with two strings and no slack: \<open>count = 2\<close>,
  \<open>offsets = [3, 5]\<close>, each string one code and its terminator (4 bytes per slot).
\<close>

definition tight_view :: "byte list" where
  "tight_view = [2, 0,   3, 0,   5, 0,   0x41, 0,   0, 0,   0x42, 0,   0, 0]"

definition tight_text :: TextArchive where
  "tight_text = \<lparr>ta_base_off = 0, path = [], n_strings = 2, offsets_word = [3, 5],
                  ta_data = tight_view\<rparr>"

text \<open>
  A Digivice name archive with 96 strings, all at word offset 97: the offset table takes
  bytes 2 to 193, and the shared string at byte 194 is the code \<open>0x0041\<close> and its
  terminator, so that the last slot (index 95) spans 4 bytes.
\<close>

definition digivice_offsets :: "nat list" where
  "digivice_offsets = replicate 96 97"

definition digivice_view :: "byte list" where
  "digivice_view = [96, 0] @ concat (replicate 96 [97, 0]) @ [0x41, 0, 0, 0]"

section \<open>Pixel packer and unpacker\<close>

text \<open>
  \<open>pack_bits_msb\<close> (replace\_sprites.py, lines 116--137). \<open>flush\<close> is the inner
  \<open>while accbits >= 8\<close>; \<open>pack_loop\<close> is the loop over the \<open>w*h\<close> values drawn from
  the iterator. The state is \<open>(acc, accbits, out)\<close>.
\<close>

function flush :: "nat \<Rightarrow> nat \<Rightarrow> byte list \<Rightarrow> nat \<times> nat \<times> byte list" where
  "flush acc accbits out =
     (if accbits \<ge> 8
      then (let shift = accbits - 8
            in flush (acc AND (push_bit shift 1 - 1)) (accbits - 8)
                 (out @ [of_nat (drop_bit shift acc AND 0xFF)]))
      else (acc, accbits, out))"
  by pat_completeness auto
termination
  by (relation "measure (\<lambda>(acc, accbits, out). accbits)") auto

declare flush.simps [simp del]

fun pack_loop :: "nat \<Rightarrow> nat list \<Rightarrow> nat \<Rightarrow> nat \<Rightarrow> byte list \<Rightarrow> nat \<times> nat \<times> byte list" where
  "pack_loop bpp [] acc accbits out = (acc, accbits, out)"
| "pack_loop bpp (x # xs) acc accbits out =
     (let v = x AND (push_bit bpp 1 - 1);
          acc1 = push_bit bpp acc OR v;
          (acc2, accbits2, out2) = flush acc1 (accbits + bpp) out
      in pack_loop bpp xs acc2 accbits2 out2)"

text \<open>
  \<open>next(it)\<close> raises \<open>StopIteration\<close> when fewer than \<open>w*h\<close> indices are supplied; the
  caller always supplies exactly \<open>w*h\<close>.
\<close>

definition pack_bits_msb :: "nat list \<Rightarrow> nat \<Rightarrow> nat \<Rightarrow> nat \<Rightarrow> py_error + byte list" where
  "pack_bits_msb indexes w h bpp =
     (if length indexes < w * h then Inl StopIteration
      else let total = w * h * bpp;
               nbytes = (total + 7) div 8;
               (acc, accbits, out) = pack_loop bpp (take (w * h) indexes) 0 0 [];
               out1 = (if accbits > 0
                       then out @ [of_nat (push_bit (8 - accbits) acc AND 0xFF)]
                       else out);
               out2 = (if length out1 \<noteq> nbytes
                       then take nbytes out1 @ replicate (nbytes - length out1) 0
                       else out1)
           in Inr out2)"

text \<open>
  The bit unpacker of \<open>decode_character\<close> (export\_sprites.py, lines 189--202).
  \<open>extract_vals\<close> is the inner \<open>while accbits >= bpp and len(vals) < w*h\<close>, \<open>unpack_loop\<close>
  the loop over the bytes; \<open>n\<close> stands for \<open>w*h\<close>.
\<close>

function extract_vals :: "nat \<Rightarrow> nat \<Rightarrow> nat \<Rightarrow> nat \<Rightarrow> nat list \<Rightarrow> nat \<times> nat \<times> nat list" where
  "extract_vals bpp n acc accbits vals =
     (if accbits \<ge> bpp \<and> length vals < n
      then (let shift = accbits - bpp
            in extract_vals bpp n (acc AND (push_bit shift 1 - 1)) (accbits - bpp)
                 (vals @ [drop_bit shift acc AND (push_bit bpp 1 - 1)]))
      else (acc, accbits, vals))"
  by pat_completeness auto
termination
  by (relation "measure (\<lambda>(bpp, n, acc, accbits, vals). accbits + (n - length vals))") auto

declare extract_vals.simps [simp del]

fun unpack_loop :: "nat \<Rightarrow> nat \<Rightarrow> byte list \<Rightarrow> nat \<Rightarrow> nat \<Rightarrow> nat list \<Rightarrow> nat list" where
  "unpack_loop bpp n [] acc accbits vals = vals"
| "unpack_loop bpp n (b # bs) acc accbits vals =
     (let (acc1, accbits1, vals1) = extract_vals bpp n (push_bit 8 acc OR unat b) (accbits + 8) vals
      in unpack_loop bpp n bs acc1 accbits1 vals1)"

definition decode_vals :: "byte list \<Rightarrow> nat \<Rightarrow> nat \<Rightarrow> nat \<Rightarrow> nat list" where
  "decode_vals buf w h bpp =
     (let vals = unpack_loop bpp (w * h) buf 0 0 []
      in if length vals < w * h then vals @ replicate (w * h - length vals) 0 else vals)"

section \<open>Sprite attributes and character data\<close>

definition bits_pp :: "nat \<Rightarrow> nat" where
  "bits_pp sp_color = sp_color * 2 + 2"

definition sprite_dims :: "nat \<Rightarrow> nat \<times> nat \<times> nat" where
  "sprite_dims attr =
     (let sp_color = attr AND 0x3;
          sp_hsize = drop_bit 4 attr AND 0x3;
          sp_vsize = drop_bit 6 attr AND 0x3
      in (push_bit sp_hsize 8, push_bit sp_vsize 8, bits_pp sp_color))"

definition decode_character :: "byte list \<Rightarrow> nat \<Rightarrow> nat \<Rightarrow> nat \<Rightarrow> nat \<times> nat \<times> nat list" where
  "decode_character block chars_offset charnum attr =
     (let (w, h, bpp) = sprite_dims attr;
          total_bits = w * h * bpp;
          nbytes = (total_bits + 7) div 8;
          off = chars_offset + charnum * nbytes;
          buf = py_slice block off (off + nbytes)
      in (w, h, decode_vals buf w h bpp))"

text \<open>
  The write of one tile in the sprite replacement (replace\_sprites.py, lines 334--337):
  \<open>idxs\<close> are the \<open>w*h\<close> palette indices the quantiser chose for the tile.
\<close>

definition write_character ::
  "byte list \<Rightarrow> nat \<Rightarrow> nat \<Rightarrow> nat \<Rightarrow> nat \<Rightarrow> nat \<Rightarrow> nat list \<Rightarrow> py_error + byte list" where
  "write_character data bin_chars_base charnum w h bpp idxs =
     (case pack_bits_msb idxs w h bpp of
        Inl e \<Rightarrow> Inl e
      | Inr packed \<Rightarrow>
          let nbytes = (w * h * bpp + 7) div 8;
              char_off = bin_chars_base + charnum * nbytes
          in Inr (py_slice_assign data char_off (char_off + nbytes) packed))"

section \<open>Bit streams as numbers\<close>

text \<open>
  The value of a sequence of \<open>b\<close>-bit fields read most significant first, and the value
  of a byte sequence read the same way. The round-trip proof compares the two.
\<close>

definition digits_val :: "nat \<Rightarrow> nat list \<Rightarrow> nat" where
  "digits_val b xs = foldl (\<lambda>a x. a * 2 ^ b + x) 0 xs"

definition bytes_val :: "byte list \<Rightarrow> nat" where
  "bytes_val bs = foldl (\<lambda>a x. a * 256 + unat x) 0 bs"

section \<open>SPF2ALP audio reimport (import\_device\_sounds.py)\<close>

definition MAGIC_SPF2ALP :: "byte list" where
  "MAGIC_SPF2ALP = [0x53, 0x50, 0x46, 0x32, 0x41, 0x4C, 0x50, 0x00]"

definition SPF2_HEADER_SIZE :: nat where
  "SPF2_HEADER_SIZE = 0x40"

text \<open>
  The positions collected by the \<open>buf.find(MAGIC_SPF2ALP, pos)\<close> loop: every offset at
  which the magic occurs, in increasing order.
\<close>

definition magic_positions :: "byte list \<Rightarrow> nat list" where
  "magic_positions buf =
     filter (\<lambda>p. take 8 (drop p buf) = MAGIC_SPF2ALP) [0..<length buf]"

record spf_block =
  index :: nat
  start :: nat
  adpcm_start :: nat
  adpcm_end :: nat
  slot_bytes :: nat

text \<open>
  \<open>scan_spf2alp_blocks\<close>: a block runs from its magic to the next magic or the end of
  the file; blocks no longer than the header are dropped. (The sample rate read from the
  header only selects the resampling of the WAV file and is left out.)
\<close>

definition scan_spf2alp_blocks :: "byte list \<Rightarrow> spf_block list" where
  "scan_spf2alp_blocks data =
     (let positions = magic_positions data
      in concat (map (\<lambda>(idx, st).
           let fin = (if idx + 1 < length positions then positions ! (idx + 1)
                      else length data)
           in if fin \<le> st + SPF2_HEADER_SIZE then []
              else [\<lparr>index = idx, start = st, adpcm_start = st + SPF2_HEADER_SIZE,
                      adpcm_end = fin, slot_bytes = fin - (st + SPF2_HEADER_SIZE)\<rparr>])
         (enumerate 0 positions)))"

text \<open>
  One block of the reinjection loop (lines 329--399). \<open>encoded\<close> is what
  \<open>gp_adpcm_encode\<close> returned for the block's WAV file, or \<open>None\<close> when the file is
  missing or its conversion or encoding raised.
\<close>

definition reinject_block :: "byte list \<Rightarrow> spf_block \<Rightarrow> byte list option \<Rightarrow> byte list" where
  "reinject_block data b encoded =
     (case encoded of
        None \<Rightarrow> data
      | Some enc \<Rightarrow>
          if length enc = 0 then data
          else let enc1 = (if length enc > slot_bytes b then take (slot_bytes b) enc
                           else if length enc < slot_bytes b
                           then enc @ replicate (slot_bytes b - length enc) 0
                           else enc)
               in if length enc1 \<noteq> slot_bytes b then data
                  else py_slice_assign data (adpcm_start b) (adpcm_end b) enc1)"

text \<open>
  \<open>import_spf2alp_sounds\<close> without \<open>--dry-run\<close>: the blocks are scanned once, then
  each is reinjected in turn; \<open>wavs\<close> maps a block index to the encoded replacement.
\<close>

definition import_spf2alp_sounds :: "byte list \<Rightarrow> (nat \<Rightarrow> byte list option) \<Rightarrow> byte list" where
  "import_spf2alp_sounds data wavs =
     foldl (\<lambda>d b. reinject_block d b (wavs (index b))) data (scan_spf2alp_blocks data)"

section \<open>Sprite package locator\<close>

text \<open>
  The scan positions \<open>range(0, size-16, 4)\<close>, and the header check shared by the three
  scanners: four offsets, strictly increasing from above 0 and at most \<open>size - off\<close>,
  with section lengths divisible by 6, 8 and 2.
\<close>

definition scan_offsets :: "byte list \<Rightarrow> nat list" where
  "scan_offsets data = filter (\<lambda>off. off mod 4 = 0) [0..<length data - 16]"

type_synonym pkg_offsets = "nat \<times> nat \<times> nat \<times> nat"

definition chars_of :: "pkg_offsets \<Rightarrow> nat" where
  "chars_of = (\<lambda>(img_defs, spr_defs, palettes, chars). chars)"

text \<open>
  \<open>robust_scan\<close> of update\_palette.py (lines 79--108): the loop body as the test of one
  offset, and the loop as a fold that keeps the best \<open>(score, off, block, offsets)\<close>.
\<close>

definition robust_candidate :: "byte list \<Rightarrow> nat \<Rightarrow> pkg_offsets option" where
  "robust_candidate data off =
     (let size = length data;
          img_defs = le32 data off;
          spr_defs = le32 data (off + 4);
          palettes = le32 data (off + 8);
          chars = le32 data (off + 12)
      in if \<not> (0 < img_defs \<and> img_defs < spr_defs \<and> spr_defs < palettes \<and> palettes < chars
                \<and> chars \<le> size - off) then None
         else let img_len = spr_defs - img_defs;
                  spr_len = palettes - spr_defs;
                  pal_len = chars - palettes
              in if img_len mod 6 \<noteq> 0 \<or> spr_len mod 8 \<noteq> 0 \<or> pal_len mod 2 \<noteq> 0 then None
                 else let num_images = img_len div 6;
                          num_sprites = spr_len div 8
                      in if \<not> (1000 \<le> num_images \<and> num_images \<le> 5000) then None
                         else let block = py_slice data off (off + chars + 1000000);
                                  last_img_spr = le16 block (img_defs + (num_images - 1) * 6)
                              in if last_img_spr \<ge> num_sprites then None
                                 else Some (img_defs, spr_defs, palettes, chars))"

type_synonym best = "(nat \<times> nat \<times> byte list \<times> pkg_offsets) option"

definition keep_best :: "(byte list \<Rightarrow> nat \<Rightarrow> pkg_offsets option) \<Rightarrow> byte list \<Rightarrow> best \<Rightarrow> nat \<Rightarrow> best" where
  "keep_best cand data b off =
     (case cand data off of
        None \<Rightarrow> b
      | Some offs \<Rightarrow>
          let score = chars_of offs;
              block = py_slice data off (off + chars_of offs + 1000000)
          in (case b of
                None \<Rightarrow> Some (score, off, block, offs)
              | Some (s, _) \<Rightarrow> if score > s then Some (score, off, block, offs) else b))"

definition scan_with ::
  "(byte list \<Rightarrow> nat \<Rightarrow> pkg_offsets option) \<Rightarrow> byte list
     \<Rightarrow> py_error + nat \<times> byte list \<times> pkg_offsets" where
  "scan_with cand data =
     (case foldl (keep_best cand data) None (scan_offsets data) of
        None \<Rightarrow> Inl RuntimeError
      | Some (score, off, block, offs) \<Rightarrow> Inr (off, block, offs))"

definition robust_scan :: "byte list \<Rightarrow> py_error + nat \<times> byte list \<times> pkg_offsets" where
  "robust_scan data = scan_with robust_candidate data"

text \<open>The parsed tables.\<close>

record ImageDef =
  sprite_start_index :: nat
  width :: nat
  height :: nat
  palette_start_index :: nat

record SpriteDef =
  charnum :: nat
  ox :: int
  oy :: int
  attr :: nat

definition se16 :: "byte list \<Rightarrow> nat \<Rightarrow> int" where
  "se16 b off = (let u = int (le16 b off) in if u \<ge> 32768 then u - 65536 else u)"

definition read_images :: "byte list \<Rightarrow> nat \<Rightarrow> nat \<Rightarrow> ImageDef list" where
  "read_images block img_defs_offset num_images =
     map (\<lambda>i. let off = img_defs_offset + i * 6
               in \<lparr>sprite_start_index = le16 block off, width = unat (block ! (off + 2)),
                   height = unat (block ! (off + 3)),
                   palette_start_index = le16 block (off + 4)\<rparr>) [0..<num_images]"

definition read_sprites :: "byte list \<Rightarrow> nat \<Rightarrow> nat \<Rightarrow> SpriteDef list" where
  "read_sprites block spr_defs_offset num_sprites =
     map (\<lambda>i. let off = spr_defs_offset + i * 8
               in \<lparr>charnum = le16 block off, ox = se16 block (off + 2),
                   oy = se16 block (off + 4), attr = le16 block (off + 6)\<rparr>) [0..<num_sprites]"

definition read_palette :: "byte list \<Rightarrow> nat \<Rightarrow> nat \<Rightarrow> nat list" where
  "read_palette block palettes_offset num_colors =
     map (\<lambda>i. le16 block (palettes_offset + 2 * i)) [0..<num_colors]"

text \<open>
  \<open>parse_package(block, offsets)\<close> of replace\_sprites.py (lines 60--79). The section
  lengths are Python integers and may be negative; the assertion is on their remainders;
  a table that does not fit in the block makes a read raise.
\<close>

definition parse_package ::
  "byte list \<Rightarrow> pkg_offsets
     \<Rightarrow> py_error + ImageDef list \<times> SpriteDef list \<times> nat list \<times> nat" where
  "parse_package block = (\<lambda>(img_defs_offset, spr_defs_offset, palettes_offset, chars_offset).
     let img_len = int spr_defs_offset - int img_defs_offset;
         spr_len = int palettes_offset - int spr_defs_offset;
         pal_len = int chars_offset - int palettes_offset
     in if \<not> (img_len mod 6 = 0 \<and> spr_len mod 8 = 0 \<and> pal_len mod 2 = 0)
        then Inl AssertionError
        else let num_images = nat (img_len div 6);
                 num_sprites = nat (spr_len div 8);
                 num_colors = nat (pal_len div 2)
             in if (num_images > 0 \<and> img_defs_offset + 6 * num_images > length block)
                   \<or> (num_sprites > 0 \<and> spr_defs_offset + 8 * num_sprites > length block)
                   \<or> (num_colors > 0 \<and> palettes_offset + 2 * num_colors > length block)
                then Inl StructError
                else Inr (read_images block img_defs_offset num_images,
                          read_sprites block spr_defs_offset num_sprites,
                          read_palette block palettes_offset num_colors,
                          chars_offset))"

text \<open>
  \<open>robust_scan\<close> of replace\_sprites.py (lines 81--113): the same header test, then
  \<open>parse_package\<close> inside \<open>try\<close>, then the last image's sprite index.
\<close>

definition robust_candidate_replace :: "byte list \<Rightarrow> nat \<Rightarrow> pkg_offsets option" where
  "robust_candidate_replace data off =
     (let size = length data;
          img_defs = le32 data off;
          spr_defs = le32 data (off + 4);
          palettes = le32 data (off + 8);
          chars = le32 data (off + 12)
      in if \<not> (0 < img_defs \<and> img_defs < spr_defs \<and> spr_defs < palettes \<and> palettes < chars
                \<and> chars \<le> size - off) then None
         else let img_len = spr_defs - img_defs;
                  spr_len = palettes - spr_defs;
                  pal_len = chars - palettes
              in if img_len mod 6 \<noteq> 0 \<or> spr_len mod 8 \<noteq> 0 \<or> pal_len mod 2 \<noteq> 0 then None
                 else let num_images = img_len div 6;
                          num_sprites = spr_len div 8
                      in if \<not> (1000 \<le> num_images \<and> num_images \<le> 5000) then None
                         else let block = py_slice data off (off + chars + 1000000)
                              in (case parse_package block (img_defs, spr_defs, palettes, chars) of
                                    Inl e \<Rightarrow> None
                                  | Inr (images, sprites, palette_words, chars_offset) \<Rightarrow>
                                      if images = [] then None
                                      else if sprite_start_index (last images) \<ge> num_sprites
                                      then None
                                      else Some (img_defs, spr_defs, palettes, chars)))"

definition robust_scan_replace :: "byte list \<Rightarrow> py_error + nat \<times> byte list \<times> pkg_offsets" where
  "robust_scan_replace data = scan_with robust_candidate_replace data"

text \<open>
  \<open>parse_package(block)\<close> of export\_sprites.py (lines 83--122) reads the four offsets
  from the block and asserts the header conditions itself.
\<close>

type_synonym parsed = "nat \<times> nat \<times> nat \<times> nat \<times> ImageDef list \<times> SpriteDef list \<times> nat list"

definition parse_package_export :: "byte list \<Rightarrow> py_error + parsed" where
  "parse_package_export block =
     (if length block < 16 then Inl StructError
      else let img_defs_offset = le32 block 0;
               spr_defs_offset = le32 block 4;
               palettes_offset = le32 block 8;
               chars_offset = le32 block 12
           in if \<not> (0 < img_defs_offset \<and> img_defs_offset < spr_defs_offset
                     \<and> spr_defs_offset < palettes_offset \<and> palettes_offset < chars_offset
                     \<and> chars_offset \<le> length block) then Inl AssertionError
              else let img_len = spr_defs_offset - img_defs_offset;
                       spr_len = palettes_offset - spr_defs_offset;
                       pal_len = chars_offset - palettes_offset
                   in if \<not> (img_len mod 6 = 0 \<and> spr_len mod 8 = 0 \<and> pal_len mod 2 = 0)
                      then Inl AssertionError
                      else Inr (img_defs_offset, spr_defs_offset, palettes_offset, chars_offset,
                                read_images block img_defs_offset (img_len div 6),
                                read_sprites block spr_defs_offset (spr_len div 8),
                                read_palette block palettes_offset (pal_len div 2)))"

text \<open>
  \<open>scan_for_package\<close> of export\_sprites.py (lines 124--160): the body of the \<open>try\<close>
  as the test of one offset (any exception means \<open>continue\<close>), and the loop, which
  returns at the first offset that passes.
\<close>

definition export_candidate :: "byte list \<Rightarrow> nat \<Rightarrow> parsed option" where
  "export_candidate bin_data off =
     (let size = length bin_data;
          img_defs = le32 bin_data off;
          spr_defs = le32 bin_data (off + 4);
          palettes = le32 bin_data (off + 8);
          chars = le32 bin_data (off + 12)
      in if \<not> (0 < img_defs \<and> img_defs < spr_defs \<and> spr_defs < palettes \<and> palettes < chars
                \<and> chars \<le> size - off) then None
         else let img_len = spr_defs - img_defs;
                  spr_len = palettes - spr_defs;
                  pal_len = chars - palettes
              in if img_len mod 6 \<noteq> 0 \<or> spr_len mod 8 \<noteq> 0 \<or> pal_len mod 2 \<noteq> 0 then None
                 else let num_images = img_len div 6;
                          num_sprites = spr_len div 8;
                          num_colors = pal_len div 2
                      in if num_images < 500 \<or> num_images > 10000 then None
                         else if num_colors < 64 then None
                         else let block = py_slice bin_data off (off + chars + 1000000)
                              in (case parse_package_export block of
                                    Inl e \<Rightarrow> None
                                  | Inr (i, s, p, c, images, sprites, palette_words) \<Rightarrow>
                                      if images = [] then None
                                      else if sprite_start_index (last images) < num_sprites
                                      then Some (i, s, p, c, images, sprites, palette_words)
                                      else None))"

fun first_passing :: "(nat \<Rightarrow> 'a option) \<Rightarrow> nat list \<Rightarrow> py_error + nat \<times> 'a" where
  "first_passing f [] = Inl RuntimeError"
| "first_passing f (off # offs) =
     (case f off of Some r \<Rightarrow> Inr (off, r) | None \<Rightarrow> first_passing f offs)"

definition scan_for_package :: "byte list \<Rightarrow> py_error + nat \<times> parsed" where
  "scan_for_package bin_data = first_passing (export_candidate bin_data) (scan_offsets bin_data)"

definition parsed_chars :: "parsed \<Rightarrow> nat" where
  "parsed_chars = (\<lambda>(i, s, p, c, images, sprites, palette_words). c)"

text \<open>
  What the fold of \<open>scan_with\<close> maintains over the offsets seen so far: the kept entry
  is a passing candidate of highest score, and the earliest one among those.
\<close>

definition best_inv ::
  "(byte list \<Rightarrow> nat \<Rightarrow> pkg_offsets option) \<Rightarrow> byte list \<Rightarrow> nat list \<Rightarrow> best \<Rightarrow> bool" where
  "best_inv cand data seen b =
     (case b of
        None \<Rightarrow> \<forall>off \<in> set seen. cand data off = None
      | Some (s, off, block, offs) \<Rightarrow>
          off \<in> set seen \<and> cand data off = Some offs \<and> s = chars_of offs
          \<and> (\<forall>off' \<in> set seen. \<forall>offs'. cand data off' = Some offs' \<longrightarrow>
                chars_of offs' \<le> chars_of offs
                \<and> (chars_of offs' = chars_of offs \<longrightarrow> off \<le> off')))"

section \<open>ADPCM audio codec\<close>

definition step_table :: "int list" where
  "step_table = [16, 17, 19, 21, 23, 25, 28, 31, 34, 37, 41, 45, 50, 55, 60, 66]"

definition max_amp :: int where
  "max_amp = 2047"

text \<open>
  The codec state is \<open>(predictor, step_index)\<close>. \<open>dec_step\<close> is the body of the decoder's
  inner loop for one 4-bit code (export\_device\_sounds.py, lines 44--59); the sample
  appended is 16 times the new predictor.
\<close>

type_synonym adpcm_state = "int \<times> int"

definition dec_step :: "adpcm_state \<Rightarrow> nat \<Rightarrow> adpcm_state" where
  "dec_step = (\<lambda>(predictor, step_index) nib.
     let step = step_table ! nat step_index;
         diff0 = drop_bit 3 step;
         diff1 = (if nib AND 1 \<noteq> 0 then diff0 + drop_bit 2 step else diff0);
         diff2 = (if nib AND 2 \<noteq> 0 then diff1 + drop_bit 1 step else diff1);
         diff = (if nib AND 4 \<noteq> 0 then diff2 + step else diff2);
         predictor1 = (if nib AND 8 \<noteq> 0 then predictor - diff else predictor + diff);
         predictor2 = max (- max_amp) (min max_amp predictor1);
         step_index1 = step_index + (int (nib AND 7) - 4);
         step_index2 = max 0 (min 15 step_index1)
     in (predictor2, step_index2))"

fun decode_nibs :: "adpcm_state \<Rightarrow> nat list \<Rightarrow> int list" where
  "decode_nibs st [] = []"
| "decode_nibs st (nib # nibs) =
     (let st1 = dec_step st nib in (fst st1 * 16) # decode_nibs st1 nibs)"

text \<open>Each byte gives its low nibble, then its high nibble.\<close>

definition gp_adpcm_decode :: "byte list \<Rightarrow> int list" where
  "gp_adpcm_decode adpcm_bytes =
     decode_nibs (0, 0) (concat (map (\<lambda>b. [unat b AND 0x0F, drop_bit 4 (unat b)]) adpcm_bytes))"

text \<open>
  \<open>enc_step\<close> is the body of the encoder's loop for one quantised sample
  (import\_device\_sounds.py, lines 241--291): the new state and the 4-bit code.
\<close>

definition enc_step :: "adpcm_state \<Rightarrow> int \<Rightarrow> adpcm_state \<times> nat" where
  "enc_step = (\<lambda>(predictor, step_index) sample.
     let diff0 = sample - predictor;
         nib0 = (if diff0 < 0 then (0::nat) OR 0x8 else 0);
         diff1 = (if diff0 < 0 then - diff0 else diff0);
         step = step_table ! nat step_index;
         contrib0 = drop_bit 3 step;
         nib1 = (if diff1 \<ge> step then nib0 OR 0x4 else nib0);
         contrib1 = (if diff1 \<ge> step then contrib0 + step else contrib0);
         diff2 = (if diff1 \<ge> step then diff1 - step else diff1);
         nib2 = (if diff2 \<ge> drop_bit 1 step then nib1 OR 0x2 else nib1);
         contrib2 = (if diff2 \<ge> drop_bit 1 step then contrib1 + drop_bit 1 step else contrib1);
         diff3 = (if diff2 \<ge> drop_bit 1 step then diff2 - drop_bit 1 step else diff2);
         nib3 = (if diff3 \<ge> drop_bit 2 step then nib2 OR 0x1 else nib2);
         contrib = (if diff3 \<ge> drop_bit 2 step then contrib2 + drop_bit 2 step else contrib2);
         predictor1 = (if nib3 AND 0x8 \<noteq> 0 then predictor - contrib else predictor + contrib);
         predictor2 = (if predictor1 < - max_amp then - max_amp
                       else if predictor1 > max_amp then max_amp else predictor1);
         step_index1 = step_index + (int (nib3 AND 0x7) - 4);
         step_index2 = (if step_index1 < 0 then 0
                        else if step_index1 > 15 then 15 else step_index1)
     in ((predictor2, step_index2), nib3 AND 0xF))"

fun encode_nibs :: "adpcm_state \<Rightarrow> int list \<Rightarrow> nat list" where
  "encode_nibs st [] = []"
| "encode_nibs st (sample # samples) =
     (let (st1, nib) = enc_step st sample in nib # encode_nibs st1 samples)"

text \<open>Two codes per byte, low nibble first; a missing last high nibble is 0.\<close>

fun pack_nibbles :: "nat list \<Rightarrow> byte list" where
  "pack_nibbles [] = []"
| "pack_nibbles [lo] = [of_nat ((lo AND 0xF) OR push_bit 4 (0 AND 0xF))]"
| "pack_nibbles (lo # hi # rest) =
     of_nat ((lo AND 0xF) OR push_bit 4 (hi AND 0xF)) # pack_nibbles rest"

text \<open>
  The input is a NumPy \<open>int16\<close> array; \<open>quantize\<close> is
  \<open>clip(pcm16.astype(int32) // 16, -max_amp, max_amp)\<close> for one sample.
\<close>

definition quantize :: "16 word \<Rightarrow> int" where
  "quantize w = min max_amp (max (- max_amp) (sint w div 16))"

definition gp_adpcm_encode :: "16 word list \<Rightarrow> byte list" where
  "gp_adpcm_encode pcm16 = pack_nibbles (encode_nibs (0, 0) (map quantize pcm16))"

text \<open>The encoder's state before sample \<open>i\<close>, for the statements about single samples.\<close>

definition enc_state :: "16 word list \<Rightarrow> nat \<Rightarrow> adpcm_state" where
  "enc_state pcm16 i = foldl (\<lambda>st q. fst (enc_step st q)) (0, 0) (take i (map quantize pcm16))"

section \<open>Concrete buffers\<close>

text \<open>
  End-to-end scenario 1 of the specification: an archive header (magic \<open>0x3232\<close>, one
  entry with flags 0, offset 20, both lengths 4), followed at offset 20 by the words
  \<open>count = 1\<close>, \<open>offsets = [0]\<close> and two zero bytes.
\<close>

definition scenario1 :: "byte list" where
  "scenario1 = [0x32, 0x32, 1, 0,   0, 0, 0, 0,   20, 0, 0, 0,   4, 0, 0, 0,   4, 0, 0, 0,
                1, 0,   0, 0,   0, 0]"

definition scenario1_entry :: ArchEntry where
  "scenario1_entry = \<lparr>flags = 0, offset = 20, comp_len = 4, decomp_len = 4\<rparr>"

definition scenario1_archive :: Archive where
  "scenario1_archive = \<lparr>base_off = 0, count = 1, entries = [scenario1_entry]\<rparr>"

definition scenario1_text :: TextArchive where
  "scenario1_text = \<lparr>ta_base_off = 20, path = ''off=0x0/idx=0'', n_strings = 1,
                      offsets_word = [0], ta_data = [1, 0, 0, 0]\<rparr>"

text \<open>
  A 41-byte buffer: a top-level archive at offset 0 whose single entry has flags 1
  (compressed) and offset 21; at the odd offset 21, which the 2-byte-aligned top-level
  scan never visits, a second archive header with one entry of offset 20.
\<close>

definition flagged_buf :: "byte list" where
  "flagged_buf = [0x32, 0x32, 1, 0,   1, 0, 0, 0,   21, 0, 0, 0,   0, 0, 0, 0,   0, 0, 0, 0,
                  0,
                  0x32, 0x32, 1, 0,   0, 0, 0, 0,   20, 0, 0, 0,   0, 0, 0, 0,   0, 0, 0, 0]"

definition flagged_top :: Archive where
  "flagged_top = \<lparr>base_off = 0, count = 1,
                   entries = [\<lparr>flags = 1, offset = 21, comp_len = 0, decomp_len = 0\<rparr>]\<rparr>"

definition flagged_nested :: Archive where
  "flagged_nested = \<lparr>base_off = 21, count = 1,
                      entries = [\<lparr>flags = 0, offset = 20, comp_len = 0, decomp_len = 0\<rparr>]\<rparr>"

text \<open>
  A 6-byte candidate view: \<open>count = 1\<close>, \<open>offsets = [2]\<close>, and at byte 4 the single
  code \<open>0x0041\<close> with nothing after it.
\<close>

definition unterminated_view :: "byte list" where
  "unterminated_view = [1, 0,   2, 0,   0x41, 0]"

text \<open>
  A 6026-byte image that ends where its character data would begin: at offset 0 the four
  section offsets 16, 6016, 6024, 6026 (1000 image definitions, one sprite definition,
  one palette word, no character data); image 0 is one tile with sprite index 0; every
  other byte is zero, so sprite 0 has character number 0 and attribute 0 (8 by 8 pixels,
  2 bits each).
\<close>

definition short_rom :: "byte list" where
  "short_rom = [16, 0, 0, 0,   0x80, 0x17, 0, 0,   0x88, 0x17, 0, 0,   0x8A, 0x17, 0, 0]
               @ [0, 0, 1, 1, 0, 0] @ replicate 6004 0"

text \<open>
  A 3170-byte image with two sprite-package headers that both pass the exporter's
  checks: at offset 0 the offsets 16, 3016, 3024, 3152 (500 images, 1 sprite, 64 colours),
  at offset 16 the offsets 16, 3016, 3024, 3154 (500 images, 1 sprite, 65 colours); every
  other byte is zero.
\<close>

definition two_pkg_rom :: "byte list" where
  "two_pkg_rom = [16, 0, 0, 0,   0xC8, 0x0B, 0, 0,   0xD0, 0x0B, 0, 0,   0x50, 0x0C, 0, 0]
                 @ [16, 0, 0, 0,   0xC8, 0x0B, 0, 0,   0xD0, 0x0B, 0, 0,   0x52, 0x0C, 0, 0]
                 @ replicate 3138 0"

section \<open>Verified properties\<close>

lemma replicate_numeral_unfold:
  "replicate (numeral k) x = x # replicate (pred_numeral k) x"
  by (simp add: numeral_eq_Suc)

lemmas eval_defs = le16_def le32_def py_slice_def hex04_def to_hex.simps to_dec.simps
  hex_digit_def is_probable_tama_archive_def top_archives_def children_def
  iter_all_archives_def is_probable_text_archive_def parse_text_archive_def
  decode_string_def decode_tags.simps classify_entry_def Let_def enumerate_eq_zip
  upt_rec_numeral nth_Cons' replicate_numeral_unfold

subsection \<open>C3: end-to-end scenario 1\<close>

text \<open>
  C3, as the specification states it, ends with "decoding string index 0 yields the empty
  string". On the code the scanner does discover the archive and the entry is classified
  as a text archive, but word offset 0 addresses the first word of the view, which is
  the count field 1, so string 0 does not decode to the empty string.
\<close>

theorem scenario1_string0_not_empty:
  "classify_entry scenario1 ''off=0x0'' scenario1_archive 0 scenario1_entry = Some scenario1_text
   \<and> decode_string (ta_data scenario1_text) (offsets_word scenario1_text ! 0 * 2) \<noteq> []"
  by (simp add: scenario1_def scenario1_archive_def scenario1_entry_def scenario1_text_def
      eval_defs)

text \<open>
  C3 (amended): on the scenario buffer the archive scanner yields exactly the archive at
  key \<open>off=0x0\<close>, its entry 0 is classified as a valid text archive, and decoding string
  index 0 of that text archive yields the tag string \<open><0001>\<close>.
\<close>

theorem scenario1_discovered_and_decoded:
  "iter_all_archives scenario1 3 = [(''off=0x0'', scenario1_archive)]
   \<and> classify_entry scenario1 ''off=0x0'' scenario1_archive 0 scenario1_entry
        = Some scenario1_text
   \<and> decode_string (ta_data scenario1_text) (offsets_word scenario1_text ! 0 * 2) = ''<0001>''"
  by (simp add: scenario1_def scenario1_archive_def scenario1_entry_def scenario1_text_def
      eval_defs)

subsection \<open>C5: which entries the traversal recurses into\<close>

text \<open>
  C5, as the specification states it, says that the traversal recurses into an entry only
  if \<open>flags & 0xF == 0\<close>, so that an archive reachable only through a flagged entry is
  never yielded. On \<open>flagged_buf\<close> the only top-level archive is the one at offset 0,
  its single entry has flags 1, and the archive behind that entry is yielded all the same.
\<close>

theorem flagged_entry_is_traversed:
  "(flags (entries flagged_top ! 0) AND 0xF) \<noteq> 0
   \<and> top_archives flagged_buf = [(''off=0x0'', flagged_top)]
   \<and> iter_all_archives flagged_buf 3
        = [(''off=0x0'', flagged_top), (''off=0x0/idx=0'', flagged_nested)]"
  by (simp add: flagged_buf_def flagged_top_def flagged_nested_def eval_defs)

lemma set_children:
  "set (children buf pth arc depth) =
     {(pth @ ''/idx='' @ to_dec i, sub, depth + 1) | i sub.
        i < length (entries arc)
        \<and> is_probable_tama_archive buf (base_off arc + offset (entries arc ! i)) = Some sub}"
proof (intro set_eqI iffI)
  fix x assume "x \<in> set (children buf pth arc depth)"
  then show "x \<in> {(pth @ ''/idx='' @ to_dec i, sub, depth + 1) | i sub.
        i < length (entries arc)
        \<and> is_probable_tama_archive buf (base_off arc + offset (entries arc ! i)) = Some sub}"
    by (auto simp: children_def in_set_enumerate_eq split: option.splits)
next
  fix x assume "x \<in> {(pth @ ''/idx='' @ to_dec i, sub, depth + 1) | i sub.
        i < length (entries arc)
        \<and> is_probable_tama_archive buf (base_off arc + offset (entries arc ! i)) = Some sub}"
  then obtain i sub where x: "x = (pth @ ''/idx='' @ to_dec i, sub, depth + 1)"
    and i: "i < length (entries arc)"
    and sub: "is_probable_tama_archive buf (base_off arc + offset (entries arc ! i)) = Some sub"
    by blast
  from i have "(i, entries arc ! i) \<in> set (enumerate 0 (entries arc))"
    by (simp add: in_set_enumerate_eq)
  with sub x show "x \<in> set (children buf pth arc depth)"
    unfolding children_def by (force split: option.splits)
qed

lemma children_from_ignore_flags:
  "concat (map (\<lambda>(idx, e). case is_probable_tama_archive buf (b + offset e) of
                               None \<Rightarrow> []
                             | Some sub \<Rightarrow> [(pth @ ''/idx='' @ to_dec idx, sub, depth + 1)])
               (enumerate n (map (\<lambda>e. e\<lparr>flags := f e\<rparr>) es)))
   = concat (map (\<lambda>(idx, e). case is_probable_tama_archive buf (b + offset e) of
                               None \<Rightarrow> []
                             | Some sub \<Rightarrow> [(pth @ ''/idx='' @ to_dec idx, sub, depth + 1)])
               (enumerate n es))"
  by (induction es arbitrary: n) simp_all

lemma children_ignore_flags:
  "children buf pth (arc\<lparr>entries := map (\<lambda>e. e\<lparr>flags := f e\<rparr>) (entries arc)\<rparr>) depth
     = children buf pth arc depth"
  by (simp add: children_def children_from_ignore_flags)

text \<open>
  The queue loop yields exactly the reachable items: nothing else (\<open>drain_queue_sound\<close>),
  and all of them (\<open>drain_queue_complete\<close>).
\<close>

lemma reachable_mono:
  assumes "reachable buf md q' y" and sub: "\<And>x. x \<in> set q' \<Longrightarrow> reachable buf md q x"
  shows "reachable buf md q y"
  using assms(1)
proof (induction rule: reachable.induct)
  case (queued x)
  then show ?case by (rule sub)
next
  case (nested p a d i s)
  show ?case by (rule reachable.nested [OF nested.IH nested.hyps(2,3,4)])
qed

lemma reachable_children:
  assumes "x \<in> set (children buf pth arc depth)" and "depth < md"
    and "reachable buf md q (pth, arc, depth)"
  shows "reachable buf md q x"
proof -
  from assms(1) obtain i sub where x: "x = (pth @ ''/idx='' @ to_dec i, sub, depth + 1)"
    and i: "i < length (entries arc)"
    and sub: "is_probable_tama_archive buf (base_off arc + offset (entries arc ! i)) = Some sub"
    unfolding set_children by blast
  show ?thesis unfolding x by (rule reachable.nested [OF assms(3,2) i sub])
qed

lemma reachable_pop:
  assumes "reachable buf md ((pth, arc, depth) # q) x"
  shows "x = (pth, arc, depth)
         \<or> reachable buf md (if depth \<ge> md then q else q @ children buf pth arc depth) x"
  using assms
proof (induction rule: reachable.induct)
  case (queued x)
  then show ?case by (auto intro: reachable.queued)
next
  case (nested p a d i sub)
  from nested.IH show ?case
  proof
    assume eq: "(p, a, d) = (pth, arc, depth)"
    with nested.hyps have "(p @ ''/idx='' @ to_dec i, sub, d + 1)
        \<in> set (children buf pth arc depth)"
      unfolding set_children by auto
    with eq nested.hyps(2) show ?thesis by (auto intro: reachable.queued)
  next
    assume "reachable buf md (if md \<le> depth then q else q @ children buf pth arc depth) (p, a, d)"
    from reachable.nested [OF this nested.hyps(2,3,4)] show ?thesis by simp
  qed
qed

lemma drain_queue_sound:
  "(p, a) \<in> set (drain_queue buf md q) \<Longrightarrow> \<exists>d. reachable buf md q (p, a, d)"
proof (induction buf md q rule: drain_queue.induct)
  case (1 buf md)
  then show ?case by simp
next
  case (2 buf md pth arc depth q)
  have self: "reachable buf md ((pth, arc, depth) # q) (pth, arc, depth)"
    by (rule reachable.queued) simp
  show ?case
  proof (cases "(p, a) = (pth, arc)")
    case True
    with self show ?thesis by auto
  next
    case False
    show ?thesis
    proof (cases "depth \<ge> md")
      case True
      with 2 False obtain d where "reachable buf md q (p, a, d)" by auto
      then have "reachable buf md ((pth, arc, depth) # q) (p, a, d)"
        by (rule reachable_mono) (auto intro: reachable.queued)
      then show ?thesis ..
    next
      case lt: False
      with 2 False obtain d where
        "reachable buf md (q @ children buf pth arc depth) (p, a, d)" by auto
      then have "reachable buf md ((pth, arc, depth) # q) (p, a, d)"
      proof (rule reachable_mono)
        fix x assume "x \<in> set (q @ children buf pth arc depth)"
        then show "reachable buf md ((pth, arc, depth) # q) x"
          using lt self by (auto intro: reachable.queued reachable_children)
      qed
      then show ?thesis ..
    qed
  qed
qed

lemma drain_queue_complete:
  "reachable buf md q (p, a, d) \<Longrightarrow> (p, a) \<in> set (drain_queue buf md q)"
proof (induction buf md q arbitrary: p a d rule: drain_queue.induct)
  case (1 buf md)
  from 1 show ?case by (induction rule: reachable.induct) auto
next
  case (2 buf md pth arc depth q)
  from reachable_pop [OF "2.prems"]
  show ?case
  proof
    assume "(p, a, d) = (pth, arc, depth)"
    then show ?thesis by simp
  next
    assume r: "reachable buf md (if md \<le> depth then q else q @ children buf pth arc depth)
        (p, a, d)"
    show ?thesis
    proof (cases "md \<le> depth")
      case True
      with r "2.IH"(1) show ?thesis by simp
    next
      case False
      with r "2.IH"(2) show ?thesis by simp
    qed
  qed
qed

text \<open>
  C5 (amended): the traversal yields exactly the top-level archives and the archives reached
  from them, at most \<open>max_depth\<close> levels down, through entries whose absolute offset holds a
  valid archive header; for every yielded archive below the depth limit and every such entry
  of it, the nested archive is yielded under the key \<open>path/idx=i\<close>, whatever the entry's
  flags. The test \<open>flags & 0xF\<close> is made by the consumers when they classify an entry as a
  text archive, not by the traversal.
\<close>

theorem traversal_yields_reachable_whatever_flags:
  "set (iter_all_archives buf max_depth)
     = {(p, a) | p a d.
          reachable buf max_depth (map (\<lambda>(p, a). (p, a, 0)) (top_archives buf)) (p, a, d)}
   \<and> (reachable buf max_depth (map (\<lambda>(p, a). (p, a, 0)) (top_archives buf)) (pth, arc, depth)
        \<and> depth < max_depth \<and> i < length (entries arc)
        \<and> is_probable_tama_archive buf (base_off arc + offset (entries arc ! i)) = Some sub
      \<longrightarrow> (pth @ ''/idx='' @ to_dec i, sub) \<in> set (iter_all_archives buf max_depth))"
proof (intro conjI impI)
  show "set (iter_all_archives buf max_depth)
     = {(p, a) | p a d.
          reachable buf max_depth (map (\<lambda>(p, a). (p, a, 0)) (top_archives buf)) (p, a, d)}"
    unfolding iter_all_archives_def
    using drain_queue_sound drain_queue_complete by fast
next
  assume h: "reachable buf max_depth (map (\<lambda>(p, a). (p, a, 0)) (top_archives buf))
        (pth, arc, depth)
      \<and> depth < max_depth \<and> i < length (entries arc)
      \<and> is_probable_tama_archive buf (base_off arc + offset (entries arc ! i)) = Some sub"
  then have "reachable buf max_depth (map (\<lambda>(p, a). (p, a, 0)) (top_archives buf))
      (pth @ ''/idx='' @ to_dec i, sub, depth + 1)"
    by (intro reachable.nested [of buf max_depth _ pth arc depth i sub]) blast+
  then show "(pth @ ''/idx='' @ to_dec i, sub) \<in> set (iter_all_archives buf max_depth)"
    unfolding iter_all_archives_def by (rule drain_queue_complete)
qed

text \<open>
  The witness: in \<open>flagged_buf\<close> the top-level archive is yielded at depth 0, its entry 0 has
  flags 1 and points at a valid header, and the nested archive is yielded.
\<close>

lemma flagged_tops: "top_archives flagged_buf = [(''off=0x0'', flagged_top)]"
  by (simp add: flagged_buf_def flagged_top_def eval_defs)

lemma flagged_child:
  "is_probable_tama_archive flagged_buf (base_off flagged_top + offset (entries flagged_top ! 0))
     = Some flagged_nested"
  by (simp add: flagged_buf_def flagged_top_def flagged_nested_def eval_defs)

theorem traversal_yields_reachable_whatever_flags_witness:
  "(flags (entries flagged_top ! 0) AND 0xF) \<noteq> 0
   \<and> reachable flagged_buf 3 (map (\<lambda>(p, a). (p, a, 0)) (top_archives flagged_buf))
        (''off=0x0'', flagged_top, 0)
   \<and> is_probable_tama_archive flagged_buf
        (base_off flagged_top + offset (entries flagged_top ! 0)) = Some flagged_nested
   \<and> (''off=0x0/idx=0'', flagged_nested) \<in> set (iter_all_archives flagged_buf 3)"
proof -
  have fl: "(flags (entries flagged_top ! 0) AND 0xF) \<noteq> 0" by (simp add: flagged_top_def)
  have r: "reachable flagged_buf 3 (map (\<lambda>(p, a). (p, a, 0)) (top_archives flagged_buf))
        (''off=0x0'', flagged_top, 0)"
    by (rule reachable.queued) (simp add: flagged_tops)
  have len: "0 < length (entries flagged_top)" by (simp add: flagged_top_def)
  have d: "(0::nat) < 3" by simp
  have "(''off=0x0'' @ ''/idx='' @ to_dec 0, flagged_nested)
      \<in> set (iter_all_archives flagged_buf 3)"
    using traversal_yields_reachable_whatever_flags
            [of flagged_buf 3 "''off=0x0''" flagged_top 0 0 flagged_nested, THEN conjunct2]
          r d len flagged_child by blast
  then have m: "(''off=0x0/idx=0'', flagged_nested) \<in> set (iter_all_archives flagged_buf 3)"
    by (simp add: to_dec.simps hex_digit_def)
  from fl r flagged_child m show ?thesis by (intro conjI)
qed

subsection \<open>C6: the text-archive validator and null terminators\<close>

text \<open>
  C6 says that a view holding a string without a zero code within the scan window is
  rejected. The validator of export\_d3\_npc\_names.py has no terminator loop: it accepts
  \<open>unterminated_view\<close>, whose only string (word offset 2) runs to the end of the view
  without a zero code. The sibling validator with the second loop rejects the same view.
\<close>

theorem unterminated_view_accepted:
  "is_probable_text_archive unterminated_view
     = Some \<lparr>ta_base_off = 0, path = [], n_strings = 1, offsets_word = [2],
              ta_data = unterminated_view\<rparr>
   \<and> \<not> has_terminator unterminated_view 2 (2 * 2)
   \<and> is_probable_text_archive_checked unterminated_view = None"
  by (simp add: unterminated_view_def eval_defs has_terminator.simps
      is_probable_text_archive_checked_def)

text \<open>What C6 describes does hold of the sibling validator.\<close>

lemma checked_validator_terminated:
  "is_probable_text_archive_checked view = Some ta \<Longrightarrow>
     w \<in> set (offsets_word ta) \<Longrightarrow> has_terminator view w (w * 2)"
  by (auto simp: is_probable_text_archive_checked_def Let_def list_all_iff split: if_splits)

subsection \<open>C2: an encoded name longer than its slot is not written\<close>

lemmas name_eval = eval_defs py_replace_def replace_scan.simps apply_rules_def hex_val_def
  match_tag_def match_tag_f_def encode_to_codes.simps encode_tagstring_codes.simps
  encode_from_tagstring.simps pack16_def encode_bytes_def string_capacity_def
  string_capacity_bytes_def FORBIDDEN_CHARS_npc_def FORBIDDEN_CHARS_def decode_old_string_def
  npc_name_step_def d3_name_step_def old_slot_def py_index_def digivice_name_update_def
  digivice_npc_row_def digivice_data_row_def py_slice_assign_def

lemma tight_view_valid: "is_probable_text_archive tight_view = Some tight_text"
  by (simp add: tight_view_def tight_text_def name_eval upt_rec [of 0] upt_rec [of "Suc _"])

lemma slack_view_valid: "is_probable_text_archive slack_view = Some slack_text"
  by (simp add: slack_view_def slack_text_def name_eval)

text \<open>
  C2: whenever the encoded form of a proposed name (its 16-bit codes and the 16-bit zero
  terminator) is longer than the capacity of the slot, the NPC name importer
  (import\_d3\_npc\_names.py) and the partner-data importer under the reject policy
  (import\_d3\_data.py with \<open>--overflow error\<close>) return the buffer as it was: no byte of
  the slot, or of anything else, is written.
\<close>

theorem overlong_name_rejected:
  "(encode_to_codes (apply_rules new_name inv_rules) = Inr codes
      \<and> int (length (encode_bytes codes)) > string_capacity ta si
    \<longrightarrow> npc_name_step data ta fwd inv_rules (si, new_name) = (data, False))
   \<and> (encode_from_tagstring (apply_rules name inv_rules') = Inr codes'
      \<and> index_map ! nat k = (ta', slot)
      \<and> int (length (encode_bytes codes')) > string_capacity_bytes ta' slot
    \<longrightarrow> d3_name_step Reject data index_map inv_rules' (k, name) = Inr (data, False))"
  by (auto simp: npc_name_step_def d3_name_step_def Let_def)

text \<open>
  The witness: slot 0 of \<open>tight_text\<close> holds one code (capacity 4 bytes, old name A); the
  new name D passes the forbidden-character and the character-count tests, encodes to
  two codes (6 bytes), and is rejected by both importers.
\<close>

theorem overlong_name_rejected_witness:
  "encode_to_codes (apply_rules ''D'' inv_ABC) = Inr [0x42, 0x43]
   \<and> int (length (encode_bytes [0x42, 0x43])) > string_capacity tight_text 0
   \<and> npc_name_step tight_view tight_text fwd_ABC inv_ABC (0, ''D'') = (tight_view, False)
   \<and> encode_from_tagstring (apply_rules ''D'' inv_ABC) = Inr [0x42, 0x43]
   \<and> [(tight_text, 0 :: nat)] ! nat 0 = (tight_text, 0)
   \<and> int (length (encode_bytes [0x42, 0x43])) > string_capacity_bytes tight_text 0
   \<and> d3_name_step Reject tight_view [(tight_text, 0)] inv_ABC (0, ''D'')
        = Inr (tight_view, False)"
  using overlong_name_rejected [of "''D''" inv_ABC "[0x42, 0x43]" tight_text 0 tight_view
          fwd_ABC "''D''" inv_ABC "[0x42, 0x43]" "[(tight_text, 0)]" 0 tight_text 0]
  by (simp add: tight_view_def tight_text_def inv_ABC_def name_eval)

lemma tight_old_name: "decode_old_string tight_text 0 fwd_ABC = ''A''"
  by (simp add: tight_view_def tight_text_def fwd_ABC_def name_eval)

subsection \<open>One row of the Digivice importers\<close>


lemma name_update_written:
  assumes "digivice_name_update data base view n offsets rs (si, new_name) = Inr (out, True)"
  shows "(\<forall>c \<in> set new_name. c \<notin> FORBIDDEN_CHARS)
     \<and> (\<exists>codes old_start old_bytes.
           encode_tagstring_codes (apply_rules new_name rs) = Inr codes
           \<and> old_slot view n offsets si = Inr (old_start, old_bytes)
           \<and> length (encode_bytes codes) = length old_bytes
           \<and> out = py_slice_assign data (base + old_start)
                      (base + old_start + length (encode_bytes codes)) (encode_bytes codes))"
  using assms
  by (auto simp: digivice_name_update_def Let_def split: if_splits sum.splits prod.splits)

lemma name_update_skipped:
  assumes "digivice_name_update data base view n offsets rs (si, new_name) = Inr (out, False)"
  shows "out = data"
  using assms
  by (auto simp: digivice_name_update_def Let_def split: if_splits sum.splits prod.splits)


lemma old_slot_plain:
  assumes "0 \<le> si" "si < int n" "n = length offsets"
  shows "old_slot view n offsets si
     = Inr (offsets ! nat si * 2,
            py_slice view (offsets ! nat si * 2)
              (if nat si + 1 < n then offsets ! (nat si + 1) * 2 else length view))"
  using assms by (auto simp: old_slot_def py_index_def Let_def nat_add_distrib)

lemma update_power_above: "new_power > MAX_POWER \<Longrightarrow> update_power data slot_index new_power = Inr data"
  by (simp add: update_power_def Let_def)





lemma tight_skipped:
  "digivice_name_update d b tight_view 2 [3, 5] inv_ABC (0, ''BC'') = Inr (d, False)"
  by (simp add: tight_view_def inv_ABC_def name_eval)

lemma tight_written_from_end:
  "digivice_name_update d b tight_view 2 [3, 5] inv_ABC (- 2, ''B'')
     = Inr (py_slice_assign d (b + 6) (b + 6 + 4) [0x42, 0, 0, 0], True)"
  by (simp add: tight_view_def inv_ABC_def name_eval)

lemma big_power_written:
  "update_power (replicate 622592 0) 1 200
     = Inr ((replicate 622592 0)[622388 := 200, 622389 := 0])"
  by (simp add: update_power_def pack_into_H_def MAX_POWER_def BASE_STATS_def RECORD_SIZE_def)

lemma dv_len: "length digivice_view = 198"
  by (simp add: digivice_view_def length_concat sum_list_replicate)

lemma dv_written:
  "digivice_npc_row d b digivice_view 96 digivice_offsets inv_ABC (95, ''B'')
     = Inr (py_slice_assign d (b + 194) (b + 194 + 4) [0x42, 0, 0, 0], True)"
  by (simp add: dv_len digivice_offsets_def inv_ABC_def DIGIVICE_NPC_INDEXES_def name_eval)

lemma dv_skipped:
  "digivice_npc_row d b digivice_view 96 digivice_offsets inv_ABC (95, ''BC'') = Inr (d, False)"
  by (simp add: dv_len digivice_offsets_def inv_ABC_def DIGIVICE_NPC_INDEXES_def name_eval)

lemma npc_acc: "snd (npc_name_step slack_view slack_text fwd_ABC inv_ABC (0, ''B''))"
  by (simp add: slack_view_def slack_text_def fwd_ABC_def inv_ABC_def name_eval)

lemma npc_rej: "\<not> snd (npc_name_step slack_view slack_text fwd_ABC inv_ABC (0, ''BC''))"
  by (simp add: slack_view_def slack_text_def fwd_ABC_def inv_ABC_def name_eval)

subsection \<open>C9: when a name update is accepted\<close>

text \<open>
  C9, as stated, makes exact equality of the encoded length and the slot's byte length
  a condition of every accepted name. The D3 NPC importer (import\_d3\_npc\_names.py,
  lines 246--284), one of the flows the claim is drawn from, compares character counts
  and then only requires the encoded form to fit: in \<open>slack_text\<close> slot 0 spans 6 bytes,
  the new name B encodes to 4 bytes, and the name is accepted and written.
\<close>

theorem slack_slot_accepts_shorter_name:
  "is_probable_text_archive slack_view = Some slack_text
   \<and> encode_to_codes (apply_rules ''B'' inv_ABC) = Inr [0x42]
   \<and> int (length (encode_bytes [0x42])) \<noteq> string_capacity slack_text 0
   \<and> npc_name_step slack_view slack_text fwd_ABC inv_ABC (0, ''B'')
        = ([1, 0,   2, 0,   0x42, 0,   0, 0,   0, 0], True)"
  by (simp add: slack_view_def slack_text_def fwd_ABC_def inv_ABC_def name_eval)

text \<open>
  C9 (amended): the two Digivice importers (import\_digivice\_npc\_names.py and
  import\_digivice\_data.py) write a proposed name only if it has none of the forbidden
  characters and its encoded bytes are exactly as many as the bytes of the existing slot,
  \<open>view[old_start:old_end]\<close>: for an index from 0 to \<open>n_strings - 1\<close> that is the span from the
  slot's offset to the next string's offset, or to the end of the section for the last
  string. A name that is not written leaves the buffer as it was before the name update:
  the row's input buffer in import\_digivice\_npc\_names.py, the buffer as the row's Power
  update left it in import\_digivice\_data.py (the input buffer for a row skipped whole). The
  D3 NPC importer accepts a name only if it has none of its forbidden characters, has as many
  characters as the decoded old name, and its encoded bytes are at most the slot's capacity;
  a name it does not accept leaves the buffer unchanged.
\<close>

theorem name_update_acceptance:
  "(digivice_npc_row data base view n offsets rs (si, new_name) = Inr (out, True)
      \<longrightarrow> (\<forall>c \<in> set new_name. c \<notin> FORBIDDEN_CHARS)
          \<and> (\<exists>codes old_start old_bytes.
                encode_tagstring_codes (apply_rules new_name rs) = Inr codes
                \<and> old_slot view n offsets si = Inr (old_start, old_bytes)
                \<and> length (encode_bytes codes) = length old_bytes))
   \<and> (digivice_npc_row data base view n offsets rs (si, new_name) = Inr (out, False)
      \<longrightarrow> out = data)
   \<and> (digivice_data_row data base view n offsets rs (si, slot_index, new_power, new_name)
         = Inr (out, True)
      \<longrightarrow> (\<forall>c \<in> set new_name. c \<notin> FORBIDDEN_CHARS)
          \<and> (\<exists>codes old_start old_bytes.
                encode_tagstring_codes (apply_rules new_name rs) = Inr codes
                \<and> old_slot view n offsets si = Inr (old_start, old_bytes)
                \<and> length (encode_bytes codes) = length old_bytes))
   \<and> (digivice_data_row data base view n offsets rs (si, slot_index, new_power, new_name)
         = Inr (out, False)
      \<longrightarrow> (if si \<ge> int n then out = data
           else update_power data slot_index new_power = Inr out))
   \<and> (0 \<le> si \<and> si < int n \<and> n = length offsets
      \<longrightarrow> old_slot view n offsets si
            = Inr (offsets ! nat si * 2,
                   py_slice view (offsets ! nat si * 2)
                     (if nat si + 1 < n then offsets ! (nat si + 1) * 2 else length view)))
   \<and> (snd (npc_name_step data2 ta fwd inv_rules (si2, name2))
      \<longrightarrow> (\<forall>c \<in> set name2. c \<notin> FORBIDDEN_CHARS_npc)
          \<and> length name2 = length (decode_old_string ta si2 fwd)
          \<and> (\<exists>codes. encode_to_codes (apply_rules name2 inv_rules) = Inr codes
                \<and> int (length (encode_bytes codes)) \<le> string_capacity ta si2))
   \<and> (\<not> snd (npc_name_step data2 ta fwd inv_rules (si2, name2))
      \<longrightarrow> fst (npc_name_step data2 ta fwd inv_rules (si2, name2)) = data2)"
proof -
  have a1: "digivice_npc_row data base view n offsets rs (si, new_name) = Inr (out, True)
      \<longrightarrow> (\<forall>c \<in> set new_name. c \<notin> FORBIDDEN_CHARS)
          \<and> (\<exists>codes old_start old_bytes.
                encode_tagstring_codes (apply_rules new_name rs) = Inr codes
                \<and> old_slot view n offsets si = Inr (old_start, old_bytes)
                \<and> length (encode_bytes codes) = length old_bytes)"
  proof
    assume "digivice_npc_row data base view n offsets rs (si, new_name) = Inr (out, True)"
    then have "digivice_name_update data base view n offsets rs (si, new_name) = Inr (out, True)"
      by (simp add: digivice_npc_row_def split: if_splits)
    from name_update_written [OF this]
    show "(\<forall>c \<in> set new_name. c \<notin> FORBIDDEN_CHARS)
          \<and> (\<exists>codes old_start old_bytes.
                encode_tagstring_codes (apply_rules new_name rs) = Inr codes
                \<and> old_slot view n offsets si = Inr (old_start, old_bytes)
                \<and> length (encode_bytes codes) = length old_bytes)"
      by blast
  qed
  have a2: "digivice_npc_row data base view n offsets rs (si, new_name) = Inr (out, False)
      \<longrightarrow> out = data"
    by (auto simp: digivice_npc_row_def split: if_splits dest: name_update_skipped)
  have a3: "digivice_data_row data base view n offsets rs (si, slot_index, new_power, new_name)
         = Inr (out, True)
      \<longrightarrow> (\<forall>c \<in> set new_name. c \<notin> FORBIDDEN_CHARS)
          \<and> (\<exists>codes old_start old_bytes.
                encode_tagstring_codes (apply_rules new_name rs) = Inr codes
                \<and> old_slot view n offsets si = Inr (old_start, old_bytes)
                \<and> length (encode_bytes codes) = length old_bytes)"
  proof
    assume "digivice_data_row data base view n offsets rs (si, slot_index, new_power, new_name)
         = Inr (out, True)"
    then obtain data1 where
      "digivice_name_update data1 base view n offsets rs (si, new_name) = Inr (out, True)"
      by (auto simp: digivice_data_row_def split: if_splits sum.splits)
    from name_update_written [OF this]
    show "(\<forall>c \<in> set new_name. c \<notin> FORBIDDEN_CHARS)
          \<and> (\<exists>codes old_start old_bytes.
                encode_tagstring_codes (apply_rules new_name rs) = Inr codes
                \<and> old_slot view n offsets si = Inr (old_start, old_bytes)
                \<and> length (encode_bytes codes) = length old_bytes)"
      by blast
  qed
  have a4: "digivice_data_row data base view n offsets rs (si, slot_index, new_power, new_name)
         = Inr (out, False)
      \<longrightarrow> (if si \<ge> int n then out = data
           else update_power data slot_index new_power = Inr out)"
    by (auto simp: digivice_data_row_def split: if_splits sum.splits dest: name_update_skipped)
  have a5: "0 \<le> si \<and> si < int n \<and> n = length offsets
      \<longrightarrow> old_slot view n offsets si
            = Inr (offsets ! nat si * 2,
                   py_slice view (offsets ! nat si * 2)
                     (if nat si + 1 < n then offsets ! (nat si + 1) * 2 else length view))"
    using old_slot_plain [of si n offsets view] by blast
  have a6: "snd (npc_name_step data2 ta fwd inv_rules (si2, name2))
      \<longrightarrow> (\<forall>c \<in> set name2. c \<notin> FORBIDDEN_CHARS_npc)
          \<and> length name2 = length (decode_old_string ta si2 fwd)
          \<and> (\<exists>codes. encode_to_codes (apply_rules name2 inv_rules) = Inr codes
                \<and> int (length (encode_bytes codes)) \<le> string_capacity ta si2)"
    by (auto simp: npc_name_step_def Let_def split: sum.splits if_splits)
  have a7: "\<not> snd (npc_name_step data2 ta fwd inv_rules (si2, name2))
      \<longrightarrow> fst (npc_name_step data2 ta fwd inv_rules (si2, name2)) = data2"
    by (auto simp: npc_name_step_def Let_def split: sum.splits if_splits)
  from a1 a2 a3 a4 a5 a6 a7 show ?thesis by (intro conjI)
qed

text \<open>
  The witness: the last slot of the 96-string Digivice archive spans 4 bytes; the NPC
  importer writes B (4 encoded bytes) and skips BC (6 bytes). The data importer writes B
  into slot 0 of \<open>tight_view\<close>, here addressed as index -2, and for BC leaves the buffer as
  the Power update (200 at record 1) made it. In \<open>slack_text\<close> the D3 NPC importer accepts
  B and skips BC (two characters against one).
\<close>

theorem name_update_acceptance_witness:
  "(\<exists>out. digivice_npc_row digivice_view 0 digivice_view 96 digivice_offsets inv_ABC (95, ''B'')
            = Inr (out, True))
   \<and> (\<exists>codes old_start old_bytes.
         encode_tagstring_codes (apply_rules ''B'' inv_ABC) = Inr codes
         \<and> old_slot digivice_view 96 digivice_offsets 95 = Inr (old_start, old_bytes)
         \<and> length (encode_bytes codes) = length old_bytes)
   \<and> digivice_npc_row digivice_view 0 digivice_view 96 digivice_offsets inv_ABC (95, ''BC'')
       = Inr (digivice_view, False)
   \<and> (\<exists>out. digivice_data_row tight_view 0 tight_view 2 [3, 5] inv_ABC (- 2, 1, 226, ''B'')
            = Inr (out, True))
   \<and> (\<exists>codes old_start old_bytes.
         encode_tagstring_codes (apply_rules ''B'' inv_ABC) = Inr codes
         \<and> old_slot tight_view 2 [3, 5] (- 2) = Inr (old_start, old_bytes)
         \<and> length (encode_bytes codes) = length old_bytes)
   \<and> old_slot tight_view 2 [3, 5] 0 = Inr (6, py_slice tight_view 6 10)
   \<and> (\<exists>out. digivice_data_row (replicate 622592 0) 622400 tight_view 2 [3, 5] inv_ABC
               (0, 1, 200, ''BC'') = Inr (out, False)
         \<and> update_power (replicate 622592 0) 1 200 = Inr out)
   \<and> snd (npc_name_step slack_view slack_text fwd_ABC inv_ABC (0, ''B''))
   \<and> length ''B'' = length (decode_old_string slack_text 0 fwd_ABC)
   \<and> \<not> snd (npc_name_step slack_view slack_text fwd_ABC inv_ABC (0, ''BC''))
   \<and> fst (npc_name_step slack_view slack_text fwd_ABC inv_ABC (0, ''BC'')) = slack_view"
proof -
  note dv = name_update_acceptance [where data = digivice_view and base = 0
      and view = digivice_view and n = 96 and offsets = digivice_offsets and rs = inv_ABC
      and si = 95]
  have w1: "digivice_npc_row digivice_view 0 digivice_view 96 digivice_offsets inv_ABC (95, ''B'')
      = Inr (py_slice_assign digivice_view (0 + 194) (0 + 194 + 4) [0x42, 0, 0, 0], True)"
    by (rule dv_written)
  have c1: "\<exists>out. digivice_npc_row digivice_view 0 digivice_view 96 digivice_offsets inv_ABC
      (95, ''B'') = Inr (out, True)"
    using w1 by blast
  have c2: "\<exists>codes old_start old_bytes.
         encode_tagstring_codes (apply_rules ''B'' inv_ABC) = Inr codes
         \<and> old_slot digivice_view 96 digivice_offsets 95 = Inr (old_start, old_bytes)
         \<and> length (encode_bytes codes) = length old_bytes"
    using dv [where new_name = "''B''", THEN conjunct1, THEN mp, OF w1, THEN conjunct2] .
  have w3: "digivice_npc_row digivice_view 0 digivice_view 96 digivice_offsets inv_ABC
      (95, ''BC'') = Inr (digivice_view, False)"
    by (rule dv_skipped)
  note tv = name_update_acceptance [where view = tight_view and n = 2 and offsets = "[3, 5]"
      and rs = inv_ABC and slot_index = 1]
  have w4: "digivice_data_row tight_view 0 tight_view 2 [3, 5] inv_ABC (- 2, 1, 226, ''B'')
      = Inr (py_slice_assign tight_view (0 + 6) (0 + 6 + 4) [0x42, 0, 0, 0], True)"
    by (simp add: digivice_data_row_def update_power_above MAX_POWER_def tight_written_from_end)
  have c4: "\<exists>out. digivice_data_row tight_view 0 tight_view 2 [3, 5] inv_ABC
      (- 2, 1, 226, ''B'') = Inr (out, True)"
    using w4 by blast
  have c5: "\<exists>codes old_start old_bytes.
         encode_tagstring_codes (apply_rules ''B'' inv_ABC) = Inr codes
         \<and> old_slot tight_view 2 [3, 5] (- 2) = Inr (old_start, old_bytes)
         \<and> length (encode_bytes codes) = length old_bytes"
    using tv [where data = tight_view and base = 0 and si = "- 2" and new_power = 226
        and new_name = "''B''", THEN conjunct2, THEN conjunct2, THEN conjunct1, THEN mp, OF w4,
        THEN conjunct2] .
  have c6: "old_slot tight_view 2 [3, 5] 0 = Inr (6, py_slice tight_view 6 10)"
    using tv [where si = 0, THEN conjunct2, THEN conjunct2, THEN conjunct2, THEN conjunct2,
        THEN conjunct1]
    by simp
  have w7: "digivice_data_row (replicate 622592 0) 622400 tight_view 2 [3, 5] inv_ABC
      (0, 1, 200, ''BC'') = Inr ((replicate 622592 0)[622388 := 200, 622389 := 0], False)"
    by (simp add: digivice_data_row_def big_power_written tight_skipped)
  have "update_power (replicate 622592 0) 1 200
      = Inr ((replicate 622592 0)[622388 := 200, 622389 := 0])"
    using tv [where data = "replicate 622592 0" and base = 622400 and si = 0
        and new_power = 200 and new_name = "''BC''", THEN conjunct2, THEN conjunct2,
        THEN conjunct2, THEN conjunct1, THEN mp, OF w7]
    by simp
  with w7 have c7: "\<exists>out. digivice_data_row (replicate 622592 0) 622400 tight_view 2 [3, 5]
      inv_ABC (0, 1, 200, ''BC'') = Inr (out, False)
         \<and> update_power (replicate 622592 0) 1 200 = Inr out"
    by blast
  have c9: "length ''B'' = length (decode_old_string slack_text 0 fwd_ABC)"
    using name_update_acceptance [where ?data2.0 = slack_view and ta = slack_text
        and fwd = fwd_ABC and inv_rules = inv_ABC and ?si2.0 = 0 and ?name2.0 = "''B''",
        THEN conjunct2, THEN conjunct2, THEN conjunct2, THEN conjunct2, THEN conjunct2,
        THEN conjunct1, THEN mp, OF npc_acc, THEN conjunct2, THEN conjunct1] .
  have c11: "fst (npc_name_step slack_view slack_text fwd_ABC inv_ABC (0, ''BC'')) = slack_view"
    using name_update_acceptance [where ?data2.0 = slack_view and ta = slack_text
        and fwd = fwd_ABC and inv_rules = inv_ABC and ?si2.0 = 0 and ?name2.0 = "''BC''",
        THEN conjunct2, THEN conjunct2, THEN conjunct2, THEN conjunct2, THEN conjunct2,
        THEN conjunct2, THEN mp, OF npc_rej] .
  from c1 c2 w3 c4 c5 c6 c7 npc_acc c9 npc_rej c11 show ?thesis by (intro conjI)
qed

subsection \<open>C10: the power field of the Digivice partner-data importer\<close>




subsection \<open>C7: unpacking what the MSB-first packer produced\<close>

text \<open>The masks, shifts and ors of the source, as arithmetic.\<close>

lemma and_low_mask: "x AND (push_bit n 1 - 1) = x mod 2 ^ n" for x :: nat
proof -
  have "push_bit n 1 - 1 = (mask n :: nat)" by (simp add: mask_eq_exp_minus_1)
  then show ?thesis by (simp add: take_bit_eq_mod flip: take_bit_eq_mask)
qed

lemma and_low_mask': "x AND (2 ^ n - Suc 0) = x mod 2 ^ n" for x :: nat
  using and_low_mask [of x n] by simp

lemma and_ff: "x AND 0xFF = x mod 256" for x :: nat
  using and_low_mask [of x 8] by simp

lemma shift_or: "v < 2 ^ n \<Longrightarrow> push_bit n a OR v = a * 2 ^ n + v" for a v :: nat
proof -
  assume "v < 2 ^ n"
  then have v: "take_bit n v = v" by (simp add: take_bit_eq_mod)
  have "push_bit n a AND take_bit n v = 0"
    by (simp add: bit_eq_iff bit_simps)
  then have "push_bit n a + take_bit n v = push_bit n a OR take_bit n v"
    by (rule disjunctive_add_eq_or)
  then show ?thesis by (simp add: v push_bit_eq_mult)
qed

lemma digits_val_snoc: "digits_val b (xs @ [x]) = digits_val b xs * 2 ^ b + x"
  by (simp add: digits_val_def)

lemma bytes_val_snoc: "bytes_val (bs @ [x]) = bytes_val bs * 256 + unat x"
  by (simp add: bytes_val_def)

lemma split_at: "d * 2 ^ (k + s) + a = (d * 2 ^ k + a div 2 ^ s) * 2 ^ s + a mod 2 ^ s" for a d :: nat
  by (simp add: power_add algebra_simps)

lemma div_lt: "a < 2 ^ (k + s) \<Longrightarrow> a div 2 ^ s < 2 ^ k" for a :: nat
  by (simp add: power_add less_mult_imp_div_less mult.commute)

lemma unat_byte_small: "k < 256 \<Longrightarrow> unat (of_nat k :: byte) = k"
  by (simp add: unat_of_nat)

lemma flush_inv:
  "flush acc accbits out = (acc', accbits', out') \<Longrightarrow> acc < 2 ^ accbits \<Longrightarrow>
     accbits' < 8 \<and> acc' < 2 ^ accbits'
     \<and> bytes_val out' * 2 ^ accbits' + acc' = bytes_val out * 2 ^ accbits + acc
     \<and> 8 * length out' + accbits' = 8 * length out + accbits"
proof (induction acc accbits out rule: flush.induct)
  case (1 acc accbits out)
  show ?case
  proof (cases "accbits \<ge> 8")
    case False
    with "1.prems" show ?thesis by (simp add: flush.simps)
  next
    case True
    define shift where "shift = accbits - 8"
    have ab: "accbits = 8 + shift" using True by (simp add: shift_def)
    have hi: "acc div 2 ^ shift < 256"
      using div_lt [of acc 8 shift] "1.prems"(2) by (simp add: ab)
    have byte: "unat (of_nat (drop_bit shift acc AND 0xFF) :: byte) = acc div 2 ^ shift"
      using hi by (simp add: and_ff drop_bit_eq_div unat_byte_small)
    have rec: "flush (acc AND (push_bit shift 1 - 1)) (accbits - 8)
                 (out @ [of_nat (drop_bit shift acc AND 0xFF)]) = (acc', accbits', out')"
      using "1.prems"(1) True by (simp add: flush.simps [of acc accbits] shift_def Let_def)
    have lo: "acc AND (push_bit shift 1 - 1) < 2 ^ (accbits - 8)"
      by (simp add: and_low_mask' shift_def)
    from "1.IH" [OF True refl rec [unfolded shift_def] lo [unfolded shift_def]]
    have IH: "accbits' < 8 \<and> acc' < 2 ^ accbits'
     \<and> bytes_val out' * 2 ^ accbits' + acc'
        = bytes_val (out @ [of_nat (drop_bit shift acc AND 0xFF)]) * 2 ^ shift + acc mod 2 ^ shift
     \<and> 8 * length out' + accbits' = 8 * length (out @ [of_nat (drop_bit shift acc AND 0xFF) :: byte]) + shift"
      by (simp add: and_low_mask' shift_def)
    have "bytes_val (out @ [of_nat (drop_bit shift acc AND 0xFF)]) * 2 ^ shift + acc mod 2 ^ shift
          = bytes_val out * 2 ^ accbits + acc"
      using split_at [of "bytes_val out" 8 shift acc] by (simp add: bytes_val_snoc byte ab)
    with IH show ?thesis by (simp add: ab)
  qed
qed

lemma pack_loop_inv:
  "pack_loop bpp xs acc accbits out = (acc', accbits', out') \<Longrightarrow>
   acc < 2 ^ accbits \<Longrightarrow> accbits < 8 \<Longrightarrow> \<forall>x \<in> set xs. x < 2 ^ bpp \<Longrightarrow>
     accbits' < 8 \<and> acc' < 2 ^ accbits'
     \<and> bytes_val out' * 2 ^ accbits' + acc'
         = foldl (\<lambda>a x. a * 2 ^ bpp + x) (bytes_val out * 2 ^ accbits + acc) xs
     \<and> 8 * length out' + accbits' = 8 * length out + accbits + bpp * length xs"
proof (induction xs arbitrary: acc accbits out)
  case Nil
  then show ?case by simp
next
  case (Cons x xs)
  have x: "x < 2 ^ bpp" using Cons.prems(4) by simp
  define acc1 where "acc1 = acc * 2 ^ bpp + x"
  have acc1: "push_bit bpp acc OR (x AND (push_bit bpp 1 - 1)) = acc1"
    using x by (simp add: and_low_mask' shift_or acc1_def)
  have "acc1 < 2 ^ accbits * 2 ^ bpp"
  proof -
    have "acc + 1 \<le> 2 ^ accbits" using Cons.prems(2) by simp
    then have "(acc + 1) * 2 ^ bpp \<le> 2 ^ accbits * 2 ^ bpp" by (rule mult_le_mono1)
    with x show ?thesis by (simp add: acc1_def algebra_simps)
  qed
  then have lt1: "acc1 < 2 ^ (accbits + bpp)" by (simp add: power_add)
  obtain acc2 accbits2 out2 where fl: "flush acc1 (accbits + bpp) out = (acc2, accbits2, out2)"
    by (cases "flush acc1 (accbits + bpp) out") auto
  from flush_inv [OF fl lt1]
  have f: "accbits2 < 8" "acc2 < 2 ^ accbits2"
    "bytes_val out2 * 2 ^ accbits2 + acc2 = bytes_val out * 2 ^ (accbits + bpp) + acc1"
    "8 * length out2 + accbits2 = 8 * length out + (accbits + bpp)"
    by simp_all
  have rec: "pack_loop bpp xs acc2 accbits2 out2 = (acc', accbits', out')"
    using Cons.prems(1) acc1 fl by (simp add: Let_def)
  have xs: "\<forall>x \<in> set xs. x < 2 ^ bpp" using Cons.prems(4) by simp
  from Cons.IH [OF rec f(2) f(1) xs]
  have IH: "accbits' < 8" "acc' < 2 ^ accbits'"
    "bytes_val out' * 2 ^ accbits' + acc'
       = foldl (\<lambda>a x. a * 2 ^ bpp + x) (bytes_val out2 * 2 ^ accbits2 + acc2) xs"
    "8 * length out' + accbits' = 8 * length out2 + accbits2 + bpp * length xs"
    by simp_all
  have "bytes_val out * 2 ^ (accbits + bpp) + acc1
          = (bytes_val out * 2 ^ accbits + acc) * 2 ^ bpp + x"
    by (simp add: acc1_def power_add algebra_simps)
  with IH f show ?case by simp
qed

lemma extract_inv:
  "extract_vals bpp n acc accbits vals = (acc', accbits', vals') \<Longrightarrow>
   acc < 2 ^ accbits \<Longrightarrow> length vals \<le> n \<Longrightarrow>
     acc' < 2 ^ accbits'
     \<and> digits_val bpp vals' * 2 ^ accbits' + acc' = digits_val bpp vals * 2 ^ accbits + acc
     \<and> bpp * length vals' + accbits' = bpp * length vals + accbits
     \<and> length vals' \<le> n
     \<and> (length vals' < n \<longrightarrow> accbits' < bpp)"
proof (induction bpp n acc accbits vals rule: extract_vals.induct)
  case (1 bpp n acc accbits vals)
  show ?case
  proof (cases "accbits \<ge> bpp \<and> length vals < n")
    case False
    with "1.prems" show ?thesis by (auto simp: extract_vals.simps [of bpp n acc accbits vals])
  next
    case True
    define shift where "shift = accbits - bpp"
    have ab: "accbits = bpp + shift" using True by (simp add: shift_def)
    have hi: "acc div 2 ^ shift < 2 ^ bpp"
      using div_lt [of acc bpp shift] "1.prems"(2) by (simp add: ab)
    have dig: "drop_bit shift acc AND (push_bit bpp 1 - 1) = acc div 2 ^ shift"
      using hi by (simp add: and_low_mask' drop_bit_eq_div)
    have rec: "extract_vals bpp n (acc AND (push_bit (accbits - bpp) 1 - 1)) (accbits - bpp)
                 (vals @ [drop_bit (accbits - bpp) acc AND (push_bit bpp 1 - 1)])
               = (acc', accbits', vals')"
      using "1.prems"(1) True by (simp add: extract_vals.simps [of bpp n acc accbits vals] Let_def)
    have lo: "acc AND (push_bit (accbits - bpp) 1 - 1) < 2 ^ (accbits - bpp)"
      by (simp add: and_low_mask')
    have len: "length (vals @ [drop_bit (accbits - bpp) acc AND (push_bit bpp 1 - 1)]) \<le> n"
      using True by simp
    from "1.IH" [OF True refl rec lo len]
    have IH: "acc' < 2 ^ accbits'"
      "digits_val bpp vals' * 2 ^ accbits' + acc'
         = digits_val bpp (vals @ [acc div 2 ^ shift]) * 2 ^ shift + acc mod 2 ^ shift"
      "bpp * length vals' + accbits' = bpp * length (vals @ [acc div 2 ^ shift]) + shift"
      "length vals' \<le> n" "length vals' < n \<longrightarrow> accbits' < bpp"
      using dig by (simp_all add: and_low_mask' shift_def)
    have "digits_val bpp (vals @ [acc div 2 ^ shift]) * 2 ^ shift + acc mod 2 ^ shift
            = digits_val bpp vals * 2 ^ accbits + acc"
      using split_at [of "digits_val bpp vals" bpp shift acc] by (simp add: digits_val_snoc ab)
    with IH show ?thesis by (simp add: ab algebra_simps)
  qed
qed

lemma unpack_loop_inv:
  "acc < 2 ^ accbits \<Longrightarrow> length vals \<le> n \<Longrightarrow> (length vals < n \<longrightarrow> accbits < bpp) \<Longrightarrow>
     \<exists>acc' accbits'.
        acc' < 2 ^ accbits'
        \<and> digits_val bpp (unpack_loop bpp n bs acc accbits vals) * 2 ^ accbits' + acc'
            = foldl (\<lambda>a x. a * 256 + unat x) (digits_val bpp vals * 2 ^ accbits + acc) bs
        \<and> bpp * length (unpack_loop bpp n bs acc accbits vals) + accbits'
            = bpp * length vals + accbits + 8 * length bs
        \<and> length (unpack_loop bpp n bs acc accbits vals) \<le> n
        \<and> (length (unpack_loop bpp n bs acc accbits vals) < n \<longrightarrow> accbits' < bpp)"
proof (induction bs arbitrary: acc accbits vals)
  case Nil
  then show ?case by auto
next
  case (Cons b bs)
  define acc0 where "acc0 = acc * 256 + unat b"
  have b: "unat b < 2 ^ 8" using unsigned_less [of b] by simp
  have acc0: "push_bit 8 acc OR unat b = acc0"
    using shift_or [OF b, of acc] by (simp add: acc0_def)
  have "acc0 < 2 ^ accbits * 256"
  proof -
    have "acc + 1 \<le> 2 ^ accbits" using Cons.prems(1) by simp
    then have "(acc + 1) * 256 \<le> 2 ^ accbits * 256" by (rule mult_le_mono1)
    with b show ?thesis by (simp add: acc0_def)
  qed
  then have lt0: "acc0 < 2 ^ (accbits + 8)" by (simp add: power_add)
  obtain acc1 accbits1 vals1 where
    ex: "extract_vals bpp n acc0 (accbits + 8) vals = (acc1, accbits1, vals1)"
    by (cases "extract_vals bpp n acc0 (accbits + 8) vals") auto
  from extract_inv [OF ex lt0 Cons.prems(2)]
  have e: "acc1 < 2 ^ accbits1"
    "digits_val bpp vals1 * 2 ^ accbits1 + acc1 = digits_val bpp vals * 2 ^ (accbits + 8) + acc0"
    "bpp * length vals1 + accbits1 = bpp * length vals + (accbits + 8)"
    "length vals1 \<le> n" "length vals1 < n \<longrightarrow> accbits1 < bpp"
    by simp_all
  have step: "unpack_loop bpp n (b # bs) acc accbits vals = unpack_loop bpp n bs acc1 accbits1 vals1"
    using acc0 ex by (simp add: Let_def)
  from Cons.IH [OF e(1) e(4) e(5)] obtain acc' accbits' where
    IH: "acc' < 2 ^ accbits'"
      "digits_val bpp (unpack_loop bpp n bs acc1 accbits1 vals1) * 2 ^ accbits' + acc'
         = foldl (\<lambda>a x. a * 256 + unat x) (digits_val bpp vals1 * 2 ^ accbits1 + acc1) bs"
      "bpp * length (unpack_loop bpp n bs acc1 accbits1 vals1) + accbits'
         = bpp * length vals1 + accbits1 + 8 * length bs"
      "length (unpack_loop bpp n bs acc1 accbits1 vals1) \<le> n"
      "length (unpack_loop bpp n bs acc1 accbits1 vals1) < n \<longrightarrow> accbits' < bpp"
    by blast
  have "digits_val bpp vals * 2 ^ (accbits + 8) + acc0
          = (digits_val bpp vals * 2 ^ accbits + acc) * 256 + unat b"
    by (simp add: acc0_def power_add algebra_simps)
  with IH e show ?case
    unfolding step by (intro exI [of _ acc'] exI [of _ accbits']) simp
qed

lemma extract_digits:
  "extract_vals bpp n acc accbits vals = (acc', accbits', vals') \<Longrightarrow>
   \<forall>x \<in> set vals. x < 2 ^ bpp \<Longrightarrow> \<forall>x \<in> set vals'. x < 2 ^ bpp"
proof (induction bpp n acc accbits vals rule: extract_vals.induct)
  case (1 bpp n acc accbits vals)
  show ?case
  proof (cases "accbits \<ge> bpp \<and> length vals < n")
    case False
    with "1.prems" show ?thesis by (auto simp: extract_vals.simps [of bpp n acc accbits vals])
  next
    case True
    have rec: "extract_vals bpp n (acc AND (push_bit (accbits - bpp) 1 - 1)) (accbits - bpp)
                 (vals @ [drop_bit (accbits - bpp) acc AND (push_bit bpp 1 - 1)])
               = (acc', accbits', vals')"
      using "1.prems"(1) True by (simp add: extract_vals.simps [of bpp n acc accbits vals] Let_def)
    have "\<forall>x \<in> set (vals @ [drop_bit (accbits - bpp) acc AND (push_bit bpp 1 - 1)]). x < 2 ^ bpp"
      using "1.prems"(2) by (simp add: and_low_mask')
    from "1.IH" [OF True refl rec this] show ?thesis .
  qed
qed

lemma unpack_loop_digits:
  "\<forall>x \<in> set vals. x < 2 ^ bpp \<Longrightarrow>
     \<forall>x \<in> set (unpack_loop bpp n bs acc accbits vals). x < 2 ^ bpp"
proof (induction bs arbitrary: acc accbits vals)
  case Nil
  then show ?case by simp
next
  case (Cons b bs)
  obtain acc1 accbits1 vals1 where
    ex: "extract_vals bpp n (push_bit 8 acc OR unat b) (accbits + 8) vals = (acc1, accbits1, vals1)"
    by (cases "extract_vals bpp n (push_bit 8 acc OR unat b) (accbits + 8) vals") auto
  from extract_digits [OF ex Cons.prems] have "\<forall>x \<in> set vals1. x < 2 ^ bpp" .
  from Cons.IH [OF this] show ?case using ex by (simp add: Let_def)
qed

lemma digits_val_inj:
  "length xs = length ys \<Longrightarrow> \<forall>x \<in> set xs. x < 2 ^ b \<Longrightarrow> \<forall>y \<in> set ys. y < 2 ^ b \<Longrightarrow>
   digits_val b xs = digits_val b ys \<Longrightarrow> xs = ys"
proof (induction xs arbitrary: ys rule: rev_induct)
  case Nil
  then show ?case by simp
next
  case (snoc x xs)
  from snoc.prems(1) obtain y ys' where ys: "ys = ys' @ [y]"
    by (cases ys rule: rev_cases) auto
  have x: "x < 2 ^ b" and y: "y < 2 ^ b" using snoc.prems ys by simp_all
  have eq: "digits_val b xs * 2 ^ b + x = digits_val b ys' * 2 ^ b + y"
    using snoc.prems(4) by (simp add: ys digits_val_snoc)
  have "(digits_val b xs * 2 ^ b + x) mod 2 ^ b = (digits_val b ys' * 2 ^ b + y) mod 2 ^ b"
    using eq by simp
  then have xy: "x = y" using x y by simp
  have "(digits_val b xs * 2 ^ b + x) div 2 ^ b = (digits_val b ys' * 2 ^ b + y) div 2 ^ b"
    using eq by simp
  then have "digits_val b xs = digits_val b ys'" using x y by simp
  with snoc.IH [of ys'] snoc.prems ys have "xs = ys'" by simp
  with xy ys show ?case by simp
qed

lemma pack_bits_msb_val:
  assumes len: "length v = w * h" and dig: "\<forall>x \<in> set v. x < 2 ^ bpp"
  shows "\<exists>bs pad. pack_bits_msb v w h bpp = Inr bs
           \<and> bytes_val bs = digits_val bpp v * 2 ^ pad
           \<and> 8 * length bs = bpp * (w * h) + pad"
proof -
  obtain acc accbits out where pl: "pack_loop bpp v 0 0 [] = (acc, accbits, out)"
    by (cases "pack_loop bpp v 0 0 []") auto
  from pack_loop_inv [OF pl _ _ dig]
  have p: "accbits < 8" "acc < 2 ^ accbits"
    "bytes_val out * 2 ^ accbits + acc = digits_val bpp v"
    "8 * length out + accbits = bpp * (w * h)"
    by (simp_all add: bytes_val_def digits_val_def len)
  define out1 where "out1 = (if accbits > 0
                       then out @ [of_nat (push_bit (8 - accbits) acc AND 0xFF) :: byte]
                       else out)"
  define pad where "pad = (if accbits > 0 then 8 - accbits else 0)"
  have last: "accbits > 0 \<Longrightarrow> unat (of_nat (push_bit (8 - accbits) acc AND 0xFF) :: byte)
                 = acc * 2 ^ (8 - accbits)"
  proof -
    assume pos: "accbits > 0"
    have "acc * 2 ^ (8 - accbits) < 2 ^ accbits * 2 ^ (8 - accbits)"
      using p(2) by simp
    also have "\<dots> = 2 ^ 8" using p(1) by (simp flip: power_add)
    finally have lt: "acc * 2 ^ (8 - accbits) < 256" by simp
    then have m: "push_bit (8 - accbits) acc AND 0xFF = acc * 2 ^ (8 - accbits)"
      by (simp add: and_ff push_bit_eq_mult)
    show ?thesis unfolding m using lt by (rule unat_byte_small)
  qed
  have v1: "bytes_val out1 = digits_val bpp v * 2 ^ pad"
  proof (cases "accbits > 0")
    case True
    have "256 = (2::nat) ^ accbits * 2 ^ (8 - accbits)"
      using p(1) by (simp flip: power_add)
    then have "bytes_val out * 256 + acc * 2 ^ (8 - accbits)
                 = (bytes_val out * 2 ^ accbits + acc) * 2 ^ (8 - accbits)"
      by (simp add: algebra_simps)
    with True show ?thesis by (simp add: out1_def pad_def bytes_val_snoc last p(3))
  next
    case False
    with p(2) have "acc = 0" by simp
    with False p(3) show ?thesis by (simp add: out1_def pad_def)
  qed
  have l1: "8 * length out1 = bpp * (w * h) + pad"
    using p(1) p(4) by (auto simp: out1_def pad_def)
  have nb: "length out1 = (w * h * bpp + 7) div 8"
  proof -
    have "pad < 8" using p(1) by (simp add: pad_def)
    with l1 show ?thesis by (simp add: mult.commute)
  qed
  have "pack_bits_msb v w h bpp = Inr out1"
    using pl nb by (simp add: pack_bits_msb_def len Let_def out1_def)
  with v1 l1 show ?thesis by blast
qed

text \<open>
  C7: for every width \<open>w \<ge> 1\<close>, height \<open>h \<ge> 1\<close>, bits per pixel in \<open>{2, 4, 6, 8}\<close>
  and every sequence \<open>v\<close> of exactly \<open>w*h\<close> index values below \<open>2^bpp\<close>, the packer
  returns a byte string (it does not raise), and unpacking that byte string for the same
  \<open>w\<close>, \<open>h\<close>, \<open>bpp\<close> yields exactly \<open>v\<close>.
\<close>

theorem unpack_pack_roundtrip:
  assumes "w \<ge> 1" and "h \<ge> 1" and "bpp \<in> {2, 4, 6, 8}"
    and "length v = w * h" and "\<forall>x \<in> set v. x < 2 ^ bpp"
  shows "\<exists>bs. pack_bits_msb v w h bpp = Inr bs \<and> decode_vals bs w h bpp = v"
proof -
  have bpp: "bpp > 0" using assms(3) by auto
  from pack_bits_msb_val [OF assms(4) assms(5)] obtain bs pad where
    pk: "pack_bits_msb v w h bpp = Inr bs"
    and val: "bytes_val bs = digits_val bpp v * 2 ^ pad"
    and bits: "8 * length bs = bpp * (w * h) + pad"
    by blast
  define vals where "vals = unpack_loop bpp (w * h) bs 0 0 []"
  have "\<exists>acc' accbits'.
        acc' < 2 ^ accbits'
        \<and> digits_val bpp vals * 2 ^ accbits' + acc' = bytes_val bs
        \<and> bpp * length vals + accbits' = 8 * length bs
        \<and> length vals \<le> w * h
        \<and> (length vals < w * h \<longrightarrow> accbits' < bpp)"
    using unpack_loop_inv [of 0 0 "[]" "w * h" bpp bs] bpp
    by (simp add: vals_def bytes_val_def digits_val_def)
  then obtain acc' accbits' where
    u: "acc' < 2 ^ accbits'" "digits_val bpp vals * 2 ^ accbits' + acc' = bytes_val bs"
      "bpp * length vals + accbits' = 8 * length bs" "length vals \<le> w * h"
      "length vals < w * h \<longrightarrow> accbits' < bpp"
    by blast
  have full: "length vals = w * h"
  proof (rule ccontr)
    assume "length vals \<noteq> w * h"
    with u(4) have lt: "length vals < w * h" by simp
    with u(5) have "accbits' < bpp" by simp
    then have "bpp * length vals + accbits' < bpp * (length vals + 1)" by simp
    also have "\<dots> \<le> bpp * (w * h)" using lt by (intro mult_le_mono2) simp
    finally show False using u(3) bits by simp
  qed
  then have pad: "accbits' = pad" using u(3) bits by simp
  have "(digits_val bpp vals * 2 ^ pad + acc') div 2 ^ pad = (digits_val bpp v * 2 ^ pad) div 2 ^ pad"
    using u(2) val pad by simp
  then have eqv: "digits_val bpp vals = digits_val bpp v"
    using u(1) pad by simp
  have dv: "\<forall>x \<in> set vals. x < 2 ^ bpp"
    unfolding vals_def by (rule unpack_loop_digits) simp
  have "vals = v"
    using digits_val_inj [OF _ dv assms(5) eqv] full assms(4) by simp
  then have "decode_vals bs w h bpp = v"
    using full by (simp add: decode_vals_def vals_def [symmetric] Let_def)
  with pk show ?thesis by blast
qed

theorem unpack_pack_roundtrip_witness:
  "(1::nat) \<le> 2 \<and> (1::nat) \<le> 1 \<and> (6::nat) \<in> {2, 4, 6, 8} \<and> length [5, 63 :: nat] = 2 * 1
   \<and> (5::nat) < 2 ^ 6 \<and> (63::nat) < 2 ^ 6
   \<and> (\<exists>bs. pack_bits_msb [5, 63] 2 1 6 = Inr bs \<and> decode_vals bs 2 1 6 = [5, 63])"
  using unpack_pack_roundtrip [of 2 1 6 "[5, 63]"] by simp

subsection \<open>C1: the length of the buffer written out\<close>

text \<open>The audio reimport keeps the length: every block lies inside the file.\<close>

lemma length_py_slice_assign_inside:
  "i + length x \<le> length data \<Longrightarrow> length (py_slice_assign data i (i + length x) x) = length data"
  by (simp add: py_slice_assign_def)

lemma length_py_slice_assign:
  "length (py_slice_assign data i (i + length x) x)
     = (if i \<le> length data then max (length data) (i + length x) else length data + length x)"
  by (auto simp: py_slice_assign_def)

lemma pack_bits_msb_length:
  "pack_bits_msb idxs w h bpp = Inr bs \<Longrightarrow> length bs = (w * h * bpp + 7) div 8"
  by (auto simp: pack_bits_msb_def Let_def split: if_splits prod.splits)

lemma magic_positions_bound: "p \<in> set (magic_positions buf) \<Longrightarrow> p < length buf"
  by (simp add: magic_positions_def)

lemma scan_blocks_inside:
  "b \<in> set (scan_spf2alp_blocks data) \<Longrightarrow>
     adpcm_start b + slot_bytes b = adpcm_end b \<and> adpcm_end b \<le> length data"
proof -
  assume "b \<in> set (scan_spf2alp_blocks data)"
  then obtain idx st where
    mem: "(idx, st) \<in> set (enumerate 0 (magic_positions data))"
    and b: "b \<in> set (let fin = (if idx + 1 < length (magic_positions data)
                                 then magic_positions data ! (idx + 1) else length data)
           in if fin \<le> st + SPF2_HEADER_SIZE then []
              else [\<lparr>index = idx, start = st, adpcm_start = st + SPF2_HEADER_SIZE,
                      adpcm_end = fin, slot_bytes = fin - (st + SPF2_HEADER_SIZE)\<rparr>])"
    by (auto simp: scan_spf2alp_blocks_def Let_def)
  have fin: "(if idx + 1 < length (magic_positions data)
              then magic_positions data ! (idx + 1) else length data) \<le> length data"
    using magic_positions_bound [of "magic_positions data ! (idx + 1)" data]
    by (auto simp: less_imp_le)
  from b fin show ?thesis by (auto simp: Let_def split: if_splits)
qed

lemma reinject_block_length:
  "adpcm_start b + slot_bytes b = adpcm_end b \<Longrightarrow> adpcm_end b \<le> length data \<Longrightarrow>
     length (reinject_block data b encoded) = length data"
  by (auto simp: reinject_block_def Let_def py_slice_assign_def split: option.splits)

lemma import_spf2alp_sounds_length:
  "length (import_spf2alp_sounds data wavs) = length data"
proof -
  have "\<forall>b \<in> set bs. adpcm_start b + slot_bytes b = adpcm_end b \<and> adpcm_end b \<le> length d \<Longrightarrow>
        length (foldl (\<lambda>d b. reinject_block d b (wavs (index b))) d bs) = length d" for bs d
    by (induction bs arbitrary: d) (simp_all add: reinject_block_length)
  then show ?thesis
    unfolding import_spf2alp_sounds_def using scan_blocks_inside by blast
qed

text \<open>
  The D3 NPC name patch keeps the length: a text archive classified from the buffer lies
  inside it, and an accepted name fits its slot.
\<close>

lemma offsets_ok_bound: "offsets_ok len prev ws \<Longrightarrow> w \<in> set ws \<Longrightarrow> w * 2 < len"
  by (induction ws arbitrary: prev) (auto split: if_splits)

lemma offsets_ok_mono: "offsets_ok len prev ws \<Longrightarrow> i < j \<Longrightarrow> j < length ws \<Longrightarrow> ws ! i \<le> ws ! j"
proof (induction ws arbitrary: prev i j)
  case Nil then show ?case by simp
next
  case (Cons w ws)
  have ge: "offsets_ok len p vs \<Longrightarrow> v \<in> set vs \<Longrightarrow> p \<le> v" for p vs v
    by (induction vs arbitrary: p) (auto split: if_splits, force)
  from Cons.prems(1) have ok: "offsets_ok len w ws" by (auto split: if_splits)
  show ?case
  proof (cases i)
    case 0
    with Cons.prems ge [OF ok, of "ws ! (j - 1)"] show ?thesis by (cases j) auto
  next
    case (Suc i')
    with Cons.prems Cons.IH [OF ok, of i' "j - 1"] show ?thesis by (cases j) auto
  qed
qed

lemma text_archive_shape:
  "is_probable_text_archive view = Some ta \<Longrightarrow>
     ta_data ta = view \<and> length (offsets_word ta) = n_strings ta
     \<and> offsets_ok (length view) 0 (offsets_word ta)"
  by (auto simp: is_probable_text_archive_def Let_def split: if_splits)

lemma npc_name_step_length:
  assumes cl: "classify_entry data0 pth arc idx e = Some ta"
    and len: "length data = length data0"
  shows "length (fst (npc_name_step data ta fwd inv_rules (si, new_name))) = length data"
proof -
  define abs_off where "abs_off = base_off arc + offset e"
  obtain l where view: "parse_text_archive (py_slice data0 abs_off (abs_off + l)) abs_off
                           (pth @ ''/idx='' @ to_dec idx) = Some ta"
    using cl by (auto simp: classify_entry_def Let_def abs_off_def split: if_splits)
  define view where "view = py_slice data0 abs_off (abs_off + l)"
  from view obtain ta0 where ta0: "is_probable_text_archive view = Some ta0"
    and ta: "ta = ta0\<lparr>ta_base_off := abs_off, path := pth @ ''/idx='' @ to_dec idx\<rparr>"
    by (auto simp: parse_text_archive_def view_def split: option.splits)
  from text_archive_shape [OF ta0] ta
  have sh: "ta_data ta = view" "length (offsets_word ta) = n_strings ta"
    "offsets_ok (length view) 0 (offsets_word ta)" "ta_base_off ta = abs_off"
    by simp_all
  have vlen: "abs_off + length view \<le> length data \<or> length view = 0"
    by (auto simp: view_def py_slice_def len)
  show ?thesis
  proof (cases "snd (npc_name_step data ta fwd inv_rules (si, new_name))")
    case False
    then have "fst (npc_name_step data ta fwd inv_rules (si, new_name)) = data"
      by (auto simp: npc_name_step_def Let_def split: sum.splits if_splits)
    then show ?thesis by simp
  next
    case True
    then obtain codes where si: "si < n_strings ta"
      and cap: "int (length (encode_bytes codes)) \<le> string_capacity ta si"
      and res: "fst (npc_name_step data ta fwd inv_rules (si, new_name))
                  = py_slice_assign data (ta_base_off ta + offsets_word ta ! si * 2)
                      (ta_base_off ta + offsets_word ta ! si * 2 + length (encode_bytes codes))
                      (encode_bytes codes)"
      by (auto simp: npc_name_step_def Let_def not_less split: sum.splits if_splits)
    have st: "offsets_word ta ! si * 2 < length view"
      using offsets_ok_bound [OF sh(3), of "offsets_word ta ! si"] si sh(2) by simp
    have fin: "(if si + 1 < n_strings ta then offsets_word ta ! (si + 1) * 2
                else length (ta_data ta)) \<le> length view"
      using offsets_ok_bound [OF sh(3), of "offsets_word ta ! (si + 1)"] sh(1) sh(2)
      by (auto simp: less_imp_le)
    have "offsets_word ta ! si * 2 + length (encode_bytes codes) \<le> length view"
      using cap fin by (simp add: string_capacity_def Let_def)
    with vlen st have "ta_base_off ta + offsets_word ta ! si * 2 + length (encode_bytes codes)
                        \<le> length data"
      by (auto simp: sh(4))
    then show ?thesis unfolding res by (simp add: py_slice_assign_def)
  qed
qed

text \<open>
  The sprite replacement writes each tile with \<open>data[char_off : char_off + nbytes] = packed\<close>
  and never compares \<open>char_off + nbytes\<close> with the length of the file. When the tile's
  character data would lie beyond the end, the slice assignment appends.
\<close>

lemma write_character_length:
  "write_character data bin_chars_base cnum w h bpp idxs = Inr data' \<Longrightarrow>
     length data'
       = (let nbytes = (w * h * bpp + 7) div 8;
              char_off = bin_chars_base + cnum * nbytes
          in if char_off \<le> length data then max (length data) (char_off + nbytes)
             else length data + nbytes)"
proof -
  assume w: "write_character data bin_chars_base cnum w h bpp idxs = Inr data'"
  then obtain packed where p: "pack_bits_msb idxs w h bpp = Inr packed"
    and d: "data' = py_slice_assign data (bin_chars_base + cnum * ((w * h * bpp + 7) div 8))
                      (bin_chars_base + cnum * ((w * h * bpp + 7) div 8)
                         + (w * h * bpp + 7) div 8) packed"
    by (auto simp: write_character_def Let_def split: sum.splits)
  from pack_bits_msb_length [OF p] have "length packed = (w * h * bpp + 7) div 8" .
  with d length_py_slice_assign [of data _ packed] show ?thesis by (simp add: Let_def)
qed

lemma pack_zeros: "pack_bits_msb (replicate 64 0) 8 8 2 = Inr (replicate 16 0)"
  by (simp add: pack_bits_msb_def flush.simps Let_def replicate_numeral_unfold)

lemma length_short_rom: "length short_rom = 6026"
  by (simp add: short_rom_def)

text \<open>
  C1 on \<open>short_rom\<close>: the package base is 0 and the character section starts at 6026,
  the end of the file. Replacing the tile of image 0 (character number 0, 8 by 8 pixels
  at 2 bits, all indices 0) returns the 6026 bytes followed by the 16 packed bytes: the
  buffer written out is 16 bytes longer than the input.
\<close>

theorem sprite_write_grows_buffer:
  "write_character short_rom 6026 0 8 8 2 (replicate 64 0) = Inr (short_rom @ replicate 16 0)
   \<and> length (short_rom @ replicate 16 0) = length short_rom + 16"
  by (simp add: write_character_def pack_zeros py_slice_assign_def length_short_rom)

subsection \<open>C4: which sprite package the scans return\<close>

lemma sorted_scan_offsets: "sorted (scan_offsets data)"
  by (simp add: scan_offsets_def sorted_wrt_filter)

lemma keep_best_inv:
  assumes inv: "best_inv cand data seen b" and ge: "\<forall>x \<in> set seen. x \<le> q"
  shows "best_inv cand data (seen @ [q]) (keep_best cand data b q)"
proof (cases "cand data q")
  case None
  with inv show ?thesis
    by (auto simp: best_inv_def keep_best_def split: option.splits)
next
  case (Some offs)
  then have cq: "cand data q = Some offs" .
  show ?thesis
  proof (cases b)
    case None
    with inv cq show ?thesis
      by (auto simp: best_inv_def keep_best_def Let_def)
  next
    case (Some t)
    then have bt: "b = Some t" .
    obtain s off block offs0 where t: "t = (s, off, block, offs0)" by (cases t) auto
    from inv bt t have i: "off \<in> set seen" "cand data off = Some offs0" "s = chars_of offs0"
      "\<forall>off' \<in> set seen. \<forall>offs'. cand data off' = Some offs' \<longrightarrow>
                chars_of offs' \<le> chars_of offs0
                \<and> (chars_of offs' = chars_of offs0 \<longrightarrow> off \<le> off')"
      by (auto simp: best_inv_def)
    show ?thesis
    proof (cases "chars_of offs > s")
      case True
      then have kb: "keep_best cand data b q
          = Some (chars_of offs, q, py_slice data q (q + chars_of offs + 1000000), offs)"
        using cq bt t by (simp add: keep_best_def Let_def)
      show ?thesis unfolding kb using cq i True
        by (fastforce simp: best_inv_def)
    next
      case False
      then have kb: "keep_best cand data b q = b"
        using cq bt t by (simp add: keep_best_def Let_def)
      show ?thesis unfolding kb using cq bt t i False ge
        by (auto simp: best_inv_def)
    qed
  qed
qed

lemma fold_best_inv:
  "best_inv cand data seen b \<Longrightarrow> sorted (seen @ rest) \<Longrightarrow>
     best_inv cand data (seen @ rest) (foldl (keep_best cand data) b rest)"
proof (induction rest arbitrary: seen b)
  case Nil
  then show ?case by simp
next
  case (Cons q rest)
  have ge: "\<forall>x \<in> set seen. x \<le> q" using Cons.prems(2) by (auto simp: sorted_append)
  from keep_best_inv [OF Cons.prems(1) ge]
  have "best_inv cand data (seen @ [q]) (keep_best cand data b q)" .
  from Cons.IH [OF this] Cons.prems(2) show ?case by simp
qed

lemma scan_with_best:
  "best_inv cand data (scan_offsets data) (foldl (keep_best cand data) None (scan_offsets data))"
  using fold_best_inv [of cand data "[]" None "scan_offsets data"] sorted_scan_offsets
  by (simp add: best_inv_def)

lemma scan_with_max:
  "scan_with cand data = Inr (off, block, offs) \<Longrightarrow>
     off \<in> set (scan_offsets data) \<and> cand data off = Some offs
     \<and> (\<forall>off' \<in> set (scan_offsets data). \<forall>offs'. cand data off' = Some offs' \<longrightarrow>
           chars_of offs' \<le> chars_of offs
           \<and> (chars_of offs' = chars_of offs \<longrightarrow> off \<le> off'))"
  using scan_with_best [of cand data]
  by (auto simp: scan_with_def best_inv_def split: option.splits)

lemma scan_with_finds:
  "off' \<in> set (scan_offsets data) \<Longrightarrow> cand data off' \<noteq> None \<Longrightarrow>
     \<exists>r. scan_with cand data = Inr r"
  using scan_with_best [of cand data]
  by (auto simp: scan_with_def best_inv_def split: option.splits)

lemma first_passing_first:
  "first_passing f offs = Inr (off, p) \<Longrightarrow> sorted offs \<Longrightarrow> distinct offs \<Longrightarrow>
     off \<in> set offs \<and> f off = Some p \<and> (\<forall>off' \<in> set offs. off' < off \<longrightarrow> f off' = None)"
proof (induction offs)
  case Nil
  then show ?case by simp
next
  case (Cons a offs)
  show ?case
  proof (cases "f a")
    case None
    with Cons show ?thesis by (auto simp: less_le)
  next
    case (Some r)
    with Cons.prems show ?thesis by auto
  qed
qed

lemma first_passing_finds:
  "off' \<in> set offs \<Longrightarrow> f off' \<noteq> None \<Longrightarrow> \<exists>r. first_passing f offs = Inr r"
  by (induction offs) (auto split: option.splits)

lemma distinct_scan_offsets: "distinct (scan_offsets data)"
  by (simp add: scan_offsets_def)

lemma nth_py_slice:
  "i < n \<Longrightarrow> off + i < length data \<Longrightarrow> py_slice data off (off + n) ! i = data ! (off + i)"
  by (simp add: py_slice_def)

lemma length_py_slice: "length (py_slice data off (off + n)) = min n (length data - off)"
  by (simp add: py_slice_def)

lemma le32_py_slice:
  "k + 4 \<le> n \<Longrightarrow> off + k + 4 \<le> length data \<Longrightarrow>
     le32 (py_slice data off (off + n)) k = le32 data (off + k)"
  by (simp add: le32_def nth_py_slice add.assoc)

lemma le16_py_slice:
  "k + 2 \<le> n \<Longrightarrow> off + k + 2 \<le> length data \<Longrightarrow>
     le16 (py_slice data off (off + n)) k = le16 data (off + k)"
  by (simp add: le16_def nth_py_slice add.assoc)

lemma last_read_images:
  "0 < n \<Longrightarrow> sprite_start_index (last (read_images block img n)) = le16 block (img + (n - 1) * 6)"
  by (simp add: read_images_def last_map Let_def)

lemma read_images_nonempty: "0 < n \<Longrightarrow> read_images block img n \<noteq> []"
  by (simp add: read_images_def)

lemma export_candidate_passes:
  assumes inb: "off + 16 \<le> length data"
    and hdr: "0 < le32 data off" "le32 data off < le32 data (off + 4)"
      "le32 data (off + 4) < le32 data (off + 8)" "le32 data (off + 8) < le32 data (off + 12)"
      "le32 data (off + 12) \<le> length data - off"
    and al: "(le32 data (off + 4) - le32 data off) mod 6 = 0"
      "(le32 data (off + 8) - le32 data (off + 4)) mod 8 = 0"
      "(le32 data (off + 12) - le32 data (off + 8)) mod 2 = 0"
    and cnt: "500 \<le> (le32 data (off + 4) - le32 data off) div 6"
      "(le32 data (off + 4) - le32 data off) div 6 \<le> 10000"
      "64 \<le> (le32 data (off + 12) - le32 data (off + 8)) div 2"
    and lst: "le16 data (off + (le32 data off + ((le32 data (off + 4) - le32 data off) div 6 - 1) * 6))
               < (le32 data (off + 8) - le32 data (off + 4)) div 8"
  shows "\<exists>p. export_candidate data off = Some p \<and> parsed_chars p = le32 data (off + 12)"
proof -
  define img spr pal chars where "img = le32 data off" and "spr = le32 data (off + 4)"
    and "pal = le32 data (off + 8)" and "chars = le32 data (off + 12)"
  note d = img_def spr_def pal_def chars_def
  define block where "block = py_slice data off (off + (chars + 1000000))"
  have c16: "16 \<le> chars"
  proof -
    have "6 * 500 \<le> spr - img" using cnt(1) al(1) unfolding d [symmetric] by presburger
    then show ?thesis using hdr unfolding d [symmetric] by simp
  qed
  have lb: "length block = min (chars + 1000000) (length data - off)"
    by (simp add: block_def length_py_slice)
  have lb16: "16 \<le> length block" "chars \<le> length block"
    using c16 hdr(5) inb by (simp_all add: lb d)
  have rd: "le32 block 0 = img" "le32 block 4 = spr" "le32 block 8 = pal" "le32 block 12 = chars"
    using inb le32_py_slice [of 0 "chars + 1000000" off data]
      le32_py_slice [of 4 "chars + 1000000" off data]
      le32_py_slice [of 8 "chars + 1000000" off data]
      le32_py_slice [of 12 "chars + 1000000" off data]
    by (simp_all add: block_def d)
  have n0: "0 < (spr - img) div 6" using cnt(1) by (simp add: d)
  have pp: "parse_package_export block
      = Inr (img, spr, pal, chars, read_images block img ((spr - img) div 6),
             read_sprites block spr ((pal - spr) div 8),
             read_palette block pal ((chars - pal) div 2))"
    using lb16 hdr al by (simp add: parse_package_export_def rd Let_def d)
  have inl: "img + ((spr - img) div 6 - 1) * 6 + 2 \<le> chars"
  proof -
    have "((spr - img) div 6 - 1) * 6 + 6 \<le> spr - img" using n0 by simp
    then show ?thesis using hdr unfolding d [symmetric] by simp
  qed
  have l16: "le16 block (img + ((spr - img) div 6 - 1) * 6)
               = le16 data (off + (img + ((spr - img) div 6 - 1) * 6))"
    unfolding block_def using inl hdr(5) inb
    by (intro le16_py_slice) (simp_all add: d)
  have lst': "le16 block (img + ((spr - img) div 6 - 1) * 6) < (pal - spr) div 8"
    using lst unfolding l16 d [symmetric] .
  have "export_candidate data off
      = Some (img, spr, pal, chars, read_images block img ((spr - img) div 6),
             read_sprites block spr ((pal - spr) div 8),
             read_palette block pal ((chars - pal) div 2))"
    using hdr al cnt lst' n0
    by (simp add: export_candidate_def Let_def d [symmetric] block_def [symmetric] pp
        read_images_nonempty last_read_images add.assoc)
  then show ?thesis by (simp add: parsed_chars_def d)
qed

lemma parse_package_ok:
  assumes ord: "img < spr" "spr < pal" "pal < chars"
    and al: "(spr - img) mod 6 = 0" "(pal - spr) mod 8 = 0" "(chars - pal) mod 2 = 0"
    and fit: "chars \<le> length block"
  shows "parse_package block (img, spr, pal, chars)
           = Inr (read_images block img ((spr - img) div 6),
                  read_sprites block spr ((pal - spr) div 8),
                  read_palette block pal ((chars - pal) div 2), chars)"
proof -
  have i: "int spr - int img = int (spr - img)" "int pal - int spr = int (pal - spr)"
    "int chars - int pal = int (chars - pal)"
    using ord by simp_all
  have m: "int (spr - img) mod 6 = 0" "int (pal - spr) mod 8 = 0" "int (chars - pal) mod 2 = 0"
    using al by presburger+
  have dv: "nat (int (spr - img) div 6) = (spr - img) div 6"
    "nat (int (pal - spr) div 8) = (pal - spr) div 8"
    "nat (int (chars - pal) div 2) = (chars - pal) div 2"
    by (simp_all add: nat_div_distrib)
  have f1: "img + 6 * ((spr - img) div 6) \<le> length block"
    using al(1) ord fit by presburger
  have f2: "spr + 8 * ((pal - spr) div 8) \<le> length block"
    using al(2) ord fit by presburger
  have f3: "pal + 2 * ((chars - pal) div 2) \<le> length block"
    using al(3) ord fit by presburger
  show ?thesis
    unfolding parse_package_def using f1 f2 f3
    by (simp add: i m dv Let_def)
qed

lemma robust_candidates_agree: "robust_candidate_replace data off = robust_candidate data off"
proof -
  define img spr pal chars where "img = le32 data off" and "spr = le32 data (off + 4)"
    and "pal = le32 data (off + 8)" and "chars = le32 data (off + 12)"
  note d = img_def spr_def pal_def chars_def
  define block where "block = py_slice data off (off + chars + 1000000)"
  show ?thesis
  proof (cases "0 < img \<and> img < spr \<and> spr < pal \<and> pal < chars \<and> chars \<le> length data - off
                \<and> (spr - img) mod 6 = 0 \<and> (pal - spr) mod 8 = 0 \<and> (chars - pal) mod 2 = 0
                \<and> 1000 \<le> (spr - img) div 6 \<and> (spr - img) div 6 \<le> 5000")
    case False
    then show ?thesis
      unfolding robust_candidate_replace_def robust_candidate_def Let_def d [symmetric]
      by auto
  next
    case True
    have "length block = min (chars + 1000000) (length data - off)"
      by (simp add: block_def py_slice_def)
    with True have fit: "chars \<le> length block" by simp
    from True have pp: "parse_package block (img, spr, pal, chars)
           = Inr (read_images block img ((spr - img) div 6),
                  read_sprites block spr ((pal - spr) div 8),
                  read_palette block pal ((chars - pal) div 2), chars)"
      by (intro parse_package_ok fit) simp_all
    from True have n0: "0 < (spr - img) div 6" by simp
    show ?thesis
      unfolding robust_candidate_replace_def robust_candidate_def Let_def d [symmetric]
        block_def [symmetric]
      using True n0 by (simp add: pp read_images_nonempty last_read_images)
  qed
qed

lemma robust_scans_agree: "robust_scan_replace data = robust_scan data"
proof -
  have "robust_candidate_replace = robust_candidate"
    by (intro ext) (rule robust_candidates_agree)
  then show ?thesis by (simp add: robust_scan_replace_def robust_scan_def)
qed

lemma len2: "length two_pkg_rom = 3170" by (simp add: two_pkg_rom_def)

lemma two_pkg_words:
  "le32 two_pkg_rom 0 = 16" "le32 two_pkg_rom 4 = 3016" "le32 two_pkg_rom 8 = 3024"
  "le32 two_pkg_rom 12 = 3152"
  "le32 two_pkg_rom 16 = 16" "le32 two_pkg_rom 20 = 3016" "le32 two_pkg_rom 24 = 3024"
  "le32 two_pkg_rom 28 = 3154"
  "le16 two_pkg_rom 3010 = 0" "le16 two_pkg_rom 3026 = 0"
  by (simp_all add: two_pkg_rom_def le32_def le16_def nth_append)

lemma two_pkg_first: "\<exists>p. export_candidate two_pkg_rom 0 = Some p \<and> parsed_chars p = 3152"
  using export_candidate_passes [of 0 two_pkg_rom]
  by (simp add: two_pkg_words len2)

lemma two_pkg_second: "\<exists>p. export_candidate two_pkg_rom 16 = Some p \<and> parsed_chars p = 3154"
  using export_candidate_passes [of 16 two_pkg_rom]
  by (simp add: two_pkg_words len2)

lemma two_pkg_offsets: "0 \<in> set (scan_offsets two_pkg_rom)" "16 \<in> set (scan_offsets two_pkg_rom)"
  by (simp_all add: scan_offsets_def len2)

text \<open>
  C4, as stated, has every package scan return the passing candidate of maximal
  \<open>chars_off\<close>. The exporter's \<open>scan_for_package\<close> returns from inside the loop at the first
  offset that passes: on \<open>two_pkg_rom\<close> the candidates at offsets 0 and 16 both pass, the
  second has the larger \<open>chars_off\<close> (3154 against 3152), and the scan returns offset 0.
\<close>

theorem first_package_returned_not_largest:
  "map_sum id fst (scan_for_package two_pkg_rom) = Inr 0
   \<and> map_option parsed_chars (export_candidate two_pkg_rom 0) = Some 3152
   \<and> 16 \<in> set (scan_offsets two_pkg_rom)
   \<and> map_option parsed_chars (export_candidate two_pkg_rom 16) = Some 3154"
proof -
  from two_pkg_first obtain p where p: "export_candidate two_pkg_rom 0 = Some p"
    "parsed_chars p = 3152" by blast
  from two_pkg_second obtain q where q: "export_candidate two_pkg_rom 16 = Some q"
    "parsed_chars q = 3154" by blast
  obtain r where r: "scan_for_package two_pkg_rom = Inr r"
    using first_passing_finds [OF two_pkg_offsets(1), of "export_candidate two_pkg_rom"] p
    by (auto simp: scan_for_package_def)
  obtain off p' where rp: "r = (off, p')" by (cases r) auto
  from first_passing_first [OF r [unfolded scan_for_package_def rp] sorted_scan_offsets
      distinct_scan_offsets]
  have "\<forall>off' \<in> set (scan_offsets two_pkg_rom). off' < off
           \<longrightarrow> export_candidate two_pkg_rom off' = None"
    by simp
  with two_pkg_offsets(1) p have "off = 0" by (cases "0 < off") auto
  with r rp p q two_pkg_offsets show ?thesis by simp
qed

text \<open>
  Both candidates of \<open>two_pkg_rom\<close> pass the checks of \<open>export_candidate\<close>, so none of the
  tests inside it rejects them, and the scan does return a package: the one it returns is
  not the one of largest \<open>chars_off\<close>.
\<close>

theorem first_package_returned_not_largest_witness:
  "export_candidate two_pkg_rom 0 \<noteq> None
   \<and> export_candidate two_pkg_rom 16 \<noteq> None
   \<and> scan_for_package two_pkg_rom \<noteq> Inl RuntimeError
   \<and> map_option parsed_chars (export_candidate two_pkg_rom 0)
       \<noteq> map_option parsed_chars (export_candidate two_pkg_rom 16)"
  using first_package_returned_not_largest by auto

lemma short_rom_words:
  "le32 short_rom 0 = 16" "le32 short_rom 4 = 6016" "le32 short_rom 8 = 6024"
  "le32 short_rom 12 = 6026" "le16 short_rom 6010 = 0"
  by (simp_all add: short_rom_def le32_def le16_def nth_append)

lemma short_rom_candidate: "robust_candidate short_rom 0 = Some (16, 6016, 6024, 6026)"
proof -
  have "le16 (py_slice short_rom 0 (0 + 1006026)) 6010 = le16 short_rom (0 + 6010)"
    by (rule le16_py_slice) (simp_all add: length_short_rom)
  then show ?thesis
    by (simp add: robust_candidate_def Let_def short_rom_words length_short_rom)
qed

text \<open>
  What the scans do return: \<open>robust_scan\<close> (update\_palette.py, and replace\_sprites.py,
  which computes the same function) returns a candidate that passes all structural checks and whose
  \<open>chars_off\<close> is maximal among all passing candidates, the earliest offset among those of
  maximal \<open>chars_off\<close>, and it returns one whenever some candidate passes. The exporter's
  \<open>scan_for_package\<close> returns the first passing candidate in scan order, and returns one
  whenever some candidate passes.
\<close>

theorem package_scan_choice:
  "(robust_scan data = Inr (off, block, offs)
      \<longrightarrow> off \<in> set (scan_offsets data) \<and> robust_candidate data off = Some offs
          \<and> (\<forall>off' \<in> set (scan_offsets data). \<forall>offs'.
                robust_candidate data off' = Some offs'
                \<longrightarrow> chars_of offs' \<le> chars_of offs
                    \<and> (chars_of offs' = chars_of offs \<longrightarrow> off \<le> off')))
   \<and> ((\<exists>off' \<in> set (scan_offsets data). robust_candidate data off' \<noteq> None)
      \<longrightarrow> (\<exists>r. robust_scan data = Inr r))
   \<and> robust_scan_replace data = robust_scan data
   \<and> (scan_for_package data = Inr (off2, p)
      \<longrightarrow> off2 \<in> set (scan_offsets data) \<and> export_candidate data off2 = Some p
          \<and> (\<forall>off' \<in> set (scan_offsets data). off' < off2
                \<longrightarrow> export_candidate data off' = None))
   \<and> ((\<exists>off' \<in> set (scan_offsets data). export_candidate data off' \<noteq> None)
      \<longrightarrow> (\<exists>r. scan_for_package data = Inr r))"
proof -
  have 1: "robust_scan data = Inr (off, block, offs)
      \<longrightarrow> off \<in> set (scan_offsets data) \<and> robust_candidate data off = Some offs
          \<and> (\<forall>off' \<in> set (scan_offsets data). \<forall>offs'.
                robust_candidate data off' = Some offs'
                \<longrightarrow> chars_of offs' \<le> chars_of offs
                    \<and> (chars_of offs' = chars_of offs \<longrightarrow> off \<le> off'))"
    unfolding robust_scan_def by (rule impI) (rule scan_with_max)
  have 2: "(\<exists>off' \<in> set (scan_offsets data). robust_candidate data off' \<noteq> None)
      \<longrightarrow> (\<exists>r. robust_scan data = Inr r)"
    unfolding robust_scan_def by (rule impI, erule bexE) (rule scan_with_finds)
  have 3: "robust_scan_replace data = robust_scan data" by (rule robust_scans_agree)
  have 4: "scan_for_package data = Inr (off2, p)
      \<longrightarrow> off2 \<in> set (scan_offsets data) \<and> export_candidate data off2 = Some p
          \<and> (\<forall>off' \<in> set (scan_offsets data). off' < off2
                \<longrightarrow> export_candidate data off' = None)"
    unfolding scan_for_package_def
    by (rule impI) (rule first_passing_first [OF _ sorted_scan_offsets distinct_scan_offsets])
  have 5: "(\<exists>off' \<in> set (scan_offsets data). export_candidate data off' \<noteq> None)
      \<longrightarrow> (\<exists>r. scan_for_package data = Inr r)"
    unfolding scan_for_package_def by (rule impI, erule bexE) (rule first_passing_finds)
  from 1 2 3 4 5 show ?thesis by (intro conjI)
qed

theorem package_scan_choice_witness:
  "0 \<in> set (scan_offsets short_rom) \<and> robust_candidate short_rom 0 \<noteq> None
   \<and> (\<exists>r. robust_scan short_rom = Inr r)
   \<and> robust_scan_replace short_rom = robust_scan short_rom
   \<and> 0 \<in> set (scan_offsets two_pkg_rom) \<and> export_candidate two_pkg_rom 0 \<noteq> None
   \<and> (\<exists>r. scan_for_package two_pkg_rom = Inr r)"
proof -
  have a: "0 \<in> set (scan_offsets short_rom)"
    by (simp add: scan_offsets_def length_short_rom)
  have b: "robust_candidate short_rom 0 \<noteq> None" by (simp add: short_rom_candidate)
  have c: "export_candidate two_pkg_rom 0 \<noteq> None" using two_pkg_first by auto
  have ab: "\<exists>off' \<in> set (scan_offsets short_rom). robust_candidate short_rom off' \<noteq> None"
    using a b by (rule bexI [rotated])
  have ac: "\<exists>off' \<in> set (scan_offsets two_pkg_rom). export_candidate two_pkg_rom off' \<noteq> None"
    using two_pkg_offsets(1) c by (rule bexI [rotated])
  note t1 = package_scan_choice [of short_rom]
  note t2 = package_scan_choice [of two_pkg_rom]
  have r1: "\<exists>r. robust_scan short_rom = Inr r"
    using t1 [THEN conjunct2, THEN conjunct1] ab by (rule mp)
  have r2: "robust_scan_replace short_rom = robust_scan short_rom"
    by (rule t1 [THEN conjunct2, THEN conjunct2, THEN conjunct1])
  have r3: "\<exists>r. scan_for_package two_pkg_rom = Inr r"
    using t2 [THEN conjunct2, THEN conjunct2, THEN conjunct2, THEN conjunct2] ac by (rule mp)
  from a b r1 r2 two_pkg_offsets(1) c r3 show ?thesis by (intro conjI)
qed

subsection \<open>C8: the audio codec's round trip\<close>

text \<open>
  A first sample of full amplitude cannot be reached in one step from the initial state
  \<open>(0, 0)\<close>, where the step is 16: the encoder emits the largest code, 7, and the predictor
  moves by \<open>2 + 16 + 8 + 4 = 30\<close> only.
\<close>

lemma max_step: "Max (set step_table) = 66"
  by (simp add: step_table_def)

lemma dec_first: "dec_step (0, 0) 7 = (30, 3)"
  apply (simp only: dec_step_def case_prod_conv)
  apply (simp only: Let_def step_table_def)
  apply (simp add: drop_bit_eq_div max_amp_def)
  done

lemma dec_second: "dec_step (30, 3) 0 = (32, 0)"
  apply (simp only: dec_step_def case_prod_conv)
  apply (simp only: Let_def step_table_def)
  apply (simp add: drop_bit_eq_div max_amp_def)
  done

lemma enc_first: "enc_step (0, 0) 2047 = ((30, 3), 7)"
  apply (simp only: enc_step_def case_prod_conv)
  apply (simp only: Let_def step_table_def)
  apply (simp add: drop_bit_eq_div max_amp_def)
  done

lemma quantize_max: "quantize 0x7FFF = 2047"
  by (simp add: quantize_def max_amp_def)

lemma encode_loud: "gp_adpcm_encode [0x7FFF] = [7]"
  by (simp add: gp_adpcm_encode_def quantize_max enc_first)

lemma decode_loud: "gp_adpcm_decode [7] = [480, 512]"
  by (simp add: gp_adpcm_decode_def drop_bit_eq_div dec_first dec_second)

text \<open>
  C8, as stated, bounds the difference between every decoded sample and the input sample by the
  largest entry of the step table, 66. For the one-sample buffer \<open>[32767]\<close> the encoder
  writes the byte 7, which the decoder reads as two codes: it returns two samples, 480 and 512,
  and the first is 32287 away from the input sample.
\<close>

theorem slope_overload_error:
  "gp_adpcm_decode (gp_adpcm_encode [0x7FFF]) = [480, 512]
   \<and> \<not> \<bar>gp_adpcm_decode (gp_adpcm_encode [0x7FFF]) ! 0 - sint (0x7FFF :: 16 word)\<bar>
         \<le> Max (set step_table)"
  by (simp add: encode_loud decode_loud max_step)

text \<open>
  One step of the encoder, with the four tests it makes named: the sign, and the comparisons of
  the remaining magnitude with \<open>step\<close>, \<open>step >> 1\<close> and \<open>step >> 2\<close>.
\<close>

lemma enc_step_shape:
  fixes p idx q :: int
  defines "s \<equiv> step_table ! nat idx"
  defines "neg \<equiv> q - p < 0"
  defines "d \<equiv> (if neg then - (q - p) else q - p)"
  defines "b2 \<equiv> s \<le> d"
  defines "d2 \<equiv> (if b2 then d - s else d)"
  defines "b1 \<equiv> drop_bit 1 s \<le> d2"
  defines "d3 \<equiv> (if b1 then d2 - drop_bit 1 s else d2)"
  defines "b0 \<equiv> drop_bit 2 s \<le> d3"
  defines "m \<equiv> (if b2 then 4 else 0) + (if b1 then 2 else 0) + (if b0 then 1 else (0::nat))"
  defines "c \<equiv> drop_bit 3 s + (if b2 then s else 0) + (if b1 then drop_bit 1 s else 0)
                 + (if b0 then drop_bit 2 s else 0)"
  shows "enc_step (p, idx) q =
           ((max (- max_amp) (min max_amp (if neg then p - c else p + c)),
             max 0 (min 15 (idx + (int m - 4)))),
            (if neg then 8 else 0) + m)"
proof -
  have "enc_step (p, idx) q =
     (let diff0 = q - p;
         nib0 = (if neg then (0::nat) OR 0x8 else 0);
         nib1 = (if b2 then nib0 OR 0x4 else nib0);
         contrib1 = (if b2 then drop_bit 3 s + s else drop_bit 3 s);
         nib2 = (if b1 then nib1 OR 0x2 else nib1);
         contrib2 = (if b1 then contrib1 + drop_bit 1 s else contrib1);
         nib3 = (if b0 then nib2 OR 0x1 else nib2);
         contrib = (if b0 then contrib2 + drop_bit 2 s else contrib2);
         predictor1 = (if nib3 AND 0x8 \<noteq> 0 then p - contrib else p + contrib);
         predictor2 = (if predictor1 < - max_amp then - max_amp
                       else if predictor1 > max_amp then max_amp else predictor1);
         step_index1 = idx + (int (nib3 AND 0x7) - 4);
         step_index2 = (if step_index1 < 0 then 0
                        else if step_index1 > 15 then 15 else step_index1)
     in ((predictor2, step_index2), nib3 AND 0xF))"
    unfolding enc_step_def case_prod_conv Let_def s_def neg_def d_def b2_def d2_def b1_def d3_def
      b0_def by (rule refl)
  also have "\<dots> = ((max (- max_amp) (min max_amp (if neg then p - c else p + c)),
             max 0 (min 15 (idx + (int m - 4)))),
            (if neg then 8 else 0) + m)"
    unfolding m_def c_def
    by (cases neg; cases b2; cases b1; cases b0) (simp_all add: Let_def max_def min_def max_amp_def)
  finally show ?thesis .
qed

text \<open>The decoder's step on a code built from the same four tests.\<close>

lemma nib_tab:
  "((0::nat) AND 1 \<noteq> 0) = False"
  "((0::nat) AND 2 \<noteq> 0) = False"
  "((0::nat) AND 4 \<noteq> 0) = False"
  "((0::nat) AND 8 \<noteq> 0) = False"
  "(0::nat) AND 7 = 0"
  "((1::nat) AND 1 \<noteq> 0) = True"
  "((1::nat) AND 2 \<noteq> 0) = False"
  "((1::nat) AND 4 \<noteq> 0) = False"
  "((1::nat) AND 8 \<noteq> 0) = False"
  "(1::nat) AND 7 = 1"
  "((2::nat) AND 1 \<noteq> 0) = False"
  "((2::nat) AND 2 \<noteq> 0) = True"
  "((2::nat) AND 4 \<noteq> 0) = False"
  "((2::nat) AND 8 \<noteq> 0) = False"
  "(2::nat) AND 7 = 2"
  "((3::nat) AND 1 \<noteq> 0) = True"
  "((3::nat) AND 2 \<noteq> 0) = True"
  "((3::nat) AND 4 \<noteq> 0) = False"
  "((3::nat) AND 8 \<noteq> 0) = False"
  "(3::nat) AND 7 = 3"
  "((4::nat) AND 1 \<noteq> 0) = False"
  "((4::nat) AND 2 \<noteq> 0) = False"
  "((4::nat) AND 4 \<noteq> 0) = True"
  "((4::nat) AND 8 \<noteq> 0) = False"
  "(4::nat) AND 7 = 4"
  "((5::nat) AND 1 \<noteq> 0) = True"
  "((5::nat) AND 2 \<noteq> 0) = False"
  "((5::nat) AND 4 \<noteq> 0) = True"
  "((5::nat) AND 8 \<noteq> 0) = False"
  "(5::nat) AND 7 = 5"
  "((6::nat) AND 1 \<noteq> 0) = False"
  "((6::nat) AND 2 \<noteq> 0) = True"
  "((6::nat) AND 4 \<noteq> 0) = True"
  "((6::nat) AND 8 \<noteq> 0) = False"
  "(6::nat) AND 7 = 6"
  "((7::nat) AND 1 \<noteq> 0) = True"
  "((7::nat) AND 2 \<noteq> 0) = True"
  "((7::nat) AND 4 \<noteq> 0) = True"
  "((7::nat) AND 8 \<noteq> 0) = False"
  "(7::nat) AND 7 = 7"
  "((8::nat) AND 1 \<noteq> 0) = False"
  "((8::nat) AND 2 \<noteq> 0) = False"
  "((8::nat) AND 4 \<noteq> 0) = False"
  "((8::nat) AND 8 \<noteq> 0) = True"
  "(8::nat) AND 7 = 0"
  "((9::nat) AND 1 \<noteq> 0) = True"
  "((9::nat) AND 2 \<noteq> 0) = False"
  "((9::nat) AND 4 \<noteq> 0) = False"
  "((9::nat) AND 8 \<noteq> 0) = True"
  "(9::nat) AND 7 = 1"
  "((10::nat) AND 1 \<noteq> 0) = False"
  "((10::nat) AND 2 \<noteq> 0) = True"
  "((10::nat) AND 4 \<noteq> 0) = False"
  "((10::nat) AND 8 \<noteq> 0) = True"
  "(10::nat) AND 7 = 2"
  "((11::nat) AND 1 \<noteq> 0) = True"
  "((11::nat) AND 2 \<noteq> 0) = True"
  "((11::nat) AND 4 \<noteq> 0) = False"
  "((11::nat) AND 8 \<noteq> 0) = True"
  "(11::nat) AND 7 = 3"
  "((12::nat) AND 1 \<noteq> 0) = False"
  "((12::nat) AND 2 \<noteq> 0) = False"
  "((12::nat) AND 4 \<noteq> 0) = True"
  "((12::nat) AND 8 \<noteq> 0) = True"
  "(12::nat) AND 7 = 4"
  "((13::nat) AND 1 \<noteq> 0) = True"
  "((13::nat) AND 2 \<noteq> 0) = False"
  "((13::nat) AND 4 \<noteq> 0) = True"
  "((13::nat) AND 8 \<noteq> 0) = True"
  "(13::nat) AND 7 = 5"
  "((14::nat) AND 1 \<noteq> 0) = False"
  "((14::nat) AND 2 \<noteq> 0) = True"
  "((14::nat) AND 4 \<noteq> 0) = True"
  "((14::nat) AND 8 \<noteq> 0) = True"
  "(14::nat) AND 7 = 6"
  "((15::nat) AND 1 \<noteq> 0) = True"
  "((15::nat) AND 2 \<noteq> 0) = True"
  "((15::nat) AND 4 \<noteq> 0) = True"
  "((15::nat) AND 8 \<noteq> 0) = True"
  "(15::nat) AND 7 = 7"
  by simp_all

lemma dec_step_shape:
  fixes p idx :: int and neg b2 b1 b0 :: bool
  defines "s \<equiv> step_table ! nat idx"
  defines "m \<equiv> (if b2 then 4 else 0) + (if b1 then 2 else 0) + (if b0 then 1 else (0::nat))"
  defines "c \<equiv> drop_bit 3 s + (if b2 then s else 0) + (if b1 then drop_bit 1 s else 0)
                 + (if b0 then drop_bit 2 s else 0)"
  shows "dec_step (p, idx) ((if neg then 8 else 0) + m) =
           (max (- max_amp) (min max_amp (if neg then p - c else p + c)),
            max 0 (min 15 (idx + (int m - 4))))"
  apply (cases neg; cases b2; cases b1; cases b0)
  apply (simp_all only: m_def c_def if_True if_False)
  apply (simp_all only: add_0 add_0_right numeral_plus_numeral numeral_plus_one
      one_plus_numeral add_num_simps one_add_one)
  apply (simp_all only: dec_step_def case_prod_conv Let_def s_def [symmetric])
  apply (simp_all only: nib_tab if_True if_False)
  apply (simp_all add: ac_simps)
  done

lemma dec_enc_step: "dec_step st (snd (enc_step st q)) = fst (enc_step st q)"
proof -
  obtain p idx where st: "st = (p, idx)" by (cases st) auto
  show ?thesis
    unfolding st enc_step_shape snd_conv fst_conv by (rule dec_step_shape)
qed

text \<open>Ranges of the state and of the code, and the error of one step within reach.\<close>

lemma length_step_table: "length step_table = 16"
  by (simp add: step_table_def)

lemma step_table_range:
  assumes "0 \<le> idx" "idx \<le> 15"
  shows "16 \<le> step_table ! nat idx \<and> step_table ! nat idx \<le> 66"
proof -
  have "\<forall>x \<in> set step_table. 16 \<le> x \<and> x \<le> 66" by (simp add: step_table_def)
  moreover from assms have "step_table ! nat idx \<in> set step_table"
    by (intro nth_mem) (simp add: length_step_table)
  ultimately show ?thesis by blast
qed

lemma clamp_range: "0 \<le> a \<Longrightarrow> - a \<le> max (- a) (min a x) \<and> max (- a) (min a (x::int)) \<le> a"
  by auto

lemma clamp_closer:
  "\<bar>q\<bar> \<le> a \<Longrightarrow> \<bar>q - max (- a) (min a (x::int))\<bar> \<le> \<bar>q - x\<bar>"
  by (auto simp: max_def min_def)

lemma nib_lt_16:
  "(if a then 8 else 0) + ((if b then 4 else 0) + (if c then 2 else 0) + (if d then 1 else (0::nat))) < 16"
  by simp

lemma clamp_idx: "0 \<le> max 0 (min 15 y) \<and> max 0 (min 15 (y::int)) \<le> 15"
  by auto

lemma enc_step_range:
  "- max_amp \<le> fst (fst (enc_step st q)) \<and> fst (fst (enc_step st q)) \<le> max_amp
   \<and> 0 \<le> snd (fst (enc_step st q)) \<and> snd (fst (enc_step st q)) \<le> 15
   \<and> snd (enc_step st q) < 16"
proof -
  obtain p idx where st: "st = (p, idx)" by (cases st) auto
  have a: "(0::int) \<le> max_amp" by (simp add: max_amp_def)
  show ?thesis
    unfolding st enc_step_shape snd_conv fst_conv
    by (intro conjI clamp_range [OF a, THEN conjunct1] clamp_range [OF a, THEN conjunct2]
        clamp_idx [THEN conjunct1] clamp_idx [THEN conjunct2] nib_lt_16)
qed

lemma magnitude_error:
  fixes s d :: int
  assumes s: "16 \<le> s" and d: "0 \<le> d" "d < 2 * s"
  defines "b2 \<equiv> s \<le> d"
  defines "d2 \<equiv> (if b2 then d - s else d)"
  defines "b1 \<equiv> drop_bit 1 s \<le> d2"
  defines "d3 \<equiv> (if b1 then d2 - drop_bit 1 s else d2)"
  defines "b0 \<equiv> drop_bit 2 s \<le> d3"
  defines "c \<equiv> drop_bit 3 s + (if b2 then s else 0) + (if b1 then drop_bit 1 s else 0)
                 + (if b0 then drop_bit 2 s else 0)"
  shows "\<bar>d - c\<bar> \<le> s div 4"
proof -
  define s2 s4 s8 where "s2 = s div 2" and "s4 = s div 4" and "s8 = s div 8"
  have db: "drop_bit 1 s = s2" "drop_bit 2 s = s4" "drop_bit 3 s = s8" "drop_bit (Suc 0) s = s2"
    by (simp_all add: drop_bit_eq_div s2_def s4_def s8_def)
  have r: "2 * s2 \<le> s" "s \<le> 2 * s2 + 1" "2 * s4 \<le> s2" "s2 \<le> 2 * s4 + 1"
    "2 * s8 \<le> s4" "s4 \<le> 2 * s8 + 1"
    unfolding s2_def s4_def s8_def by arith+
  have d2: "0 \<le> d2" "d2 < s" "d2 = d - (if b2 then s else 0)"
    using d by (auto simp: d2_def b2_def)
  have d3: "0 \<le> d3" "d3 = d2 - (if b1 then s2 else 0)"
    "b1 \<longrightarrow> d3 \<le> s - s2 - 1" "\<not> b1 \<longrightarrow> d3 < s2"
    using d2(1,2) r by (auto simp: d3_def b1_def db)
  have c: "d - c = d3 - (if b0 then s4 else 0) - s8"
    unfolding c_def db d3(2) d2(3) by simp
  have "\<bar>d3 - (if b0 then s4 else 0) - s8\<bar> \<le> s4"
  proof (cases b0)
    case True
    then have "s4 \<le> d3" by (simp add: b0_def db)
    with True d3 r s show ?thesis by (cases b1) auto
  next
    case False
    then have "d3 < s4" by (simp add: b0_def db)
    with False d3 r s show ?thesis by auto
  qed
  then show ?thesis unfolding c s4_def .
qed

lemma and_0f: "x AND 0xF = x mod 16" for x :: nat
  using and_low_mask [of x 4] by simp

lemma enc_step_reach:
  assumes idx: "0 \<le> idx" "idx \<le> 15" and q: "\<bar>q\<bar> \<le> max_amp"
    and reach: "\<bar>q - p\<bar> < 2 * (step_table ! nat idx)"
  shows "\<bar>q - fst (fst (enc_step (p, idx) q))\<bar> \<le> step_table ! nat idx div 4"
proof -
  define s where "s = step_table ! nat idx"
  define d where "d = (if q - p < 0 then - (q - p) else q - p)"
  define c where "c = drop_bit 3 s + (if s \<le> d then s else 0)
      + (if drop_bit 1 s \<le> (if s \<le> d then d - s else d) then drop_bit 1 s else 0)
      + (if drop_bit 2 s
            \<le> (if drop_bit 1 s \<le> (if s \<le> d then d - s else d)
                then (if s \<le> d then d - s else d) - drop_bit 1 s
                else (if s \<le> d then d - s else d))
         then drop_bit 2 s else 0)"
  have s: "16 \<le> s" using step_table_range [OF idx] by (simp add: s_def)
  have d: "0 \<le> d" "d < 2 * s" using reach by (auto simp: d_def s_def)
  have me: "\<bar>d - c\<bar> \<le> s div 4"
    unfolding c_def by (rule magnitude_error [OF s d])
  have shape: "fst (fst (enc_step (p, idx) q))
      = max (- max_amp) (min max_amp (if q - p < 0 then p - c else p + c))"
    unfolding c_def d_def s_def enc_step_shape fst_conv by (rule refl)
  have "\<bar>q - (if q - p < 0 then p - c else p + c)\<bar> = \<bar>d - c\<bar>"
    by (auto simp: d_def)
  with me clamp_closer [OF q, of "if q - p < 0 then p - c else p + c"]
  show ?thesis unfolding shape s_def [symmetric] by linarith
qed

lemma unpack_byte:
  assumes "lo < 16" "hi < 16"
  shows "unat (of_nat ((lo AND 0xF) OR push_bit 4 (hi AND 0xF)) :: 8 word) AND 0x0F = lo"
    and "drop_bit 4 (unat (of_nat ((lo AND 0xF) OR push_bit 4 (hi AND 0xF)) :: 8 word)) = hi"
proof -
  have lo: "lo AND 0xF = lo" and hi: "hi AND 0xF = hi" using assms by (simp_all add: and_0f)
  have "push_bit 4 hi OR lo = hi * 2 ^ 4 + lo" using assms(1) by (intro shift_or) simp
  then have x: "(lo AND 0xF) OR push_bit 4 (hi AND 0xF) = hi * 16 + lo"
    by (simp add: lo hi or.commute)
  have u: "unat (of_nat (hi * 16 + lo) :: 8 word) = hi * 16 + lo"
    using assms by (intro unat_byte_small) simp
  show "unat (of_nat ((lo AND 0xF) OR push_bit 4 (hi AND 0xF)) :: 8 word) AND 0x0F = lo"
    unfolding x u using assms by (simp add: and_0f)
  show "drop_bit 4 (unat (of_nat ((lo AND 0xF) OR push_bit 4 (hi AND 0xF)) :: 8 word)) = hi"
    unfolding x u using assms by (simp add: drop_bit_eq_div)
qed

lemma unpack_pack_nibbles:
  "\<forall>n \<in> set nibs. n < 16 \<Longrightarrow>
     concat (map (\<lambda>b. [unat b AND 0x0F, drop_bit 4 (unat b)]) (pack_nibbles nibs))
       = nibs @ (if odd (length nibs) then [0] else [])"
proof (induction nibs rule: pack_nibbles.induct)
  case 1
  show ?case by simp
next
  case (2 lo)
  then have "lo < 16" by simp
  from unpack_byte [OF this, of 0] show ?case by simp
next
  case (3 lo hi rest)
  then have "lo < 16" "hi < 16" by simp_all
  from unpack_byte [OF this] 3 show ?case by simp
qed

lemma encode_nibs_lt: "\<forall>n \<in> set (encode_nibs st qs). n < 16"
proof (induction qs arbitrary: st)
  case Nil
  show ?case by simp
next
  case (Cons q qs)
  from enc_step_range [of st q] have "snd (enc_step st q) < 16" by blast
  with Cons show ?case by (simp add: case_prod_beta)
qed

lemma length_encode_nibs: "length (encode_nibs st qs) = length qs"
  by (induction qs arbitrary: st) (simp_all add: case_prod_beta)

lemma length_decode_nibs: "length (decode_nibs st ns) = length ns"
  by (induction ns arbitrary: st) (simp_all add: Let_def)

lemma decode_encode_nth:
  "i < length qs \<Longrightarrow>
     decode_nibs st (encode_nibs st qs @ rest) ! i
       = 16 * fst (foldl (\<lambda>st q. fst (enc_step st q)) st (take (Suc i) qs))"
proof (induction qs arbitrary: st i)
  case Nil
  then show ?case by simp
next
  case (Cons q qs)
  show ?case
  proof (cases i)
    case 0
    then show ?thesis by (simp add: case_prod_beta dec_enc_step Let_def)
  next
    case (Suc j)
    with Cons.prems have "j < length qs" by simp
    from Cons.IH [OF this, of "fst (enc_step st q)"] Suc
    show ?thesis by (simp add: case_prod_beta dec_enc_step Let_def)
  qed
qed

lemma snd_foldl_range:
  "0 \<le> snd st \<Longrightarrow> snd st \<le> 15 \<Longrightarrow>
     0 \<le> snd (foldl (\<lambda>st q. fst (enc_step st q)) st qs)
     \<and> snd (foldl (\<lambda>st q. fst (enc_step st q)) st qs) \<le> 15"
proof (induction qs arbitrary: st)
  case Nil
  then show ?case by simp
next
  case (Cons q qs)
  from enc_step_range [of st q] Cons.IH [of "fst (enc_step st q)"] show ?case by simp
qed

lemma quantize_range: "\<bar>quantize w\<bar> \<le> max_amp"
  by (simp add: quantize_def max_amp_def)

lemma quantize_error: "\<bar>sint w - 16 * quantize w\<bar> \<le> 16"
proof -
  have "- (2 ^ (LENGTH(16) - 1)) \<le> sint w" "sint w < 2 ^ (LENGTH(16) - 1)"
    by (rule sint_ge, rule sint_lt)
  then have "- 32768 \<le> sint w" "sint w < 32768" by simp_all
  then show ?thesis unfolding quantize_def max_amp_def by (simp add: min_def max_def) arith
qed

lemma decoded_nth:
  assumes "i < length pcm16"
  shows "gp_adpcm_decode (gp_adpcm_encode pcm16) ! i = 16 * fst (enc_state pcm16 (Suc i))"
proof -
  let ?qs = "map quantize pcm16"
  have "gp_adpcm_decode (gp_adpcm_encode pcm16)
      = decode_nibs (0, 0) (encode_nibs (0, 0) ?qs
          @ (if odd (length (encode_nibs (0, 0) ?qs)) then [0] else []))"
    unfolding gp_adpcm_decode_def gp_adpcm_encode_def
    using encode_nibs_lt [of "(0, 0)" ?qs] by (simp only: unpack_pack_nibbles)
  moreover have "i < length ?qs" using assms by simp
  ultimately show ?thesis
    by (simp only: decode_encode_nth enc_state_def)
qed

lemma decoded_length:
  "length (gp_adpcm_decode (gp_adpcm_encode pcm16)) = 2 * ((length pcm16 + 1) div 2)"
proof -
  let ?qs = "map quantize pcm16"
  have "gp_adpcm_decode (gp_adpcm_encode pcm16)
      = decode_nibs (0, 0) (encode_nibs (0, 0) ?qs
          @ (if odd (length (encode_nibs (0, 0) ?qs)) then [0] else []))"
    unfolding gp_adpcm_decode_def gp_adpcm_encode_def
    using encode_nibs_lt [of "(0, 0)" ?qs] by (simp only: unpack_pack_nibbles)
  then show ?thesis
    by (simp add: length_decode_nibs length_encode_nibs)
qed

lemma enc_state_Suc:
  assumes "i < length pcm16"
  shows "enc_state pcm16 (Suc i) = fst (enc_step (enc_state pcm16 i) (quantize (pcm16 ! i)))"
  using assms by (simp add: enc_state_def take_Suc_conv_app_nth)

lemma enc_state_range: "0 \<le> snd (enc_state pcm16 i) \<and> snd (enc_state pcm16 i) \<le> 15"
  unfolding enc_state_def by (rule snd_foldl_range) simp_all

text \<open>
  C8 (amended): for every PCM16 buffer and every index \<open>i\<close> of it, the decoder run on the
  encoder's bytes returns \<open>2 * ceil(len / 2)\<close> samples, sample \<open>i\<close> is 16 times the encoder's
  predictor after sample \<open>i\<close> (the decoder follows the encoder's state exactly), and whenever
  the quantised input sample \<open>clip(pcm[i] // 16, -2047, 2047)\<close> is within reach of the
  encoder's state before it, that is, differs from the predictor by less than twice the current
  step, the decoded sample differs from the input sample by at most
  \<open>16 * (step div 4) + 16\<close>, where the step is at most 66, the largest entry of the table.
\<close>

theorem adpcm_roundtrip_in_reach:
  assumes "i < length pcm16"
  shows "length (gp_adpcm_decode (gp_adpcm_encode pcm16)) = 2 * ((length pcm16 + 1) div 2)
    \<and> gp_adpcm_decode (gp_adpcm_encode pcm16) ! i = 16 * fst (enc_state pcm16 (Suc i))
    \<and> (\<bar>quantize (pcm16 ! i) - fst (enc_state pcm16 i)\<bar>
          < 2 * (step_table ! nat (snd (enc_state pcm16 i)))
        \<longrightarrow> \<bar>gp_adpcm_decode (gp_adpcm_encode pcm16) ! i - sint (pcm16 ! i)\<bar>
              \<le> 16 * (step_table ! nat (snd (enc_state pcm16 i)) div 4) + 16
            \<and> step_table ! nat (snd (enc_state pcm16 i)) \<le> Max (set step_table))"
proof (intro conjI impI)
  show "length (gp_adpcm_decode (gp_adpcm_encode pcm16)) = 2 * ((length pcm16 + 1) div 2)"
    by (rule decoded_length)
  show nth: "gp_adpcm_decode (gp_adpcm_encode pcm16) ! i = 16 * fst (enc_state pcm16 (Suc i))"
    using assms by (rule decoded_nth)
  obtain p idx where st: "enc_state pcm16 i = (p, idx)" by (cases "enc_state pcm16 i") auto
  from enc_state_range [of pcm16 i] have idx: "0 \<le> idx" "idx \<le> 15" by (simp_all add: st)
  show "step_table ! nat (snd (enc_state pcm16 i)) \<le> Max (set step_table)"
    using step_table_range [OF idx] by (simp add: st max_step)
  assume "\<bar>quantize (pcm16 ! i) - fst (enc_state pcm16 i)\<bar>
      < 2 * (step_table ! nat (snd (enc_state pcm16 i)))"
  then have "\<bar>quantize (pcm16 ! i) - p\<bar> < 2 * (step_table ! nat idx)" by (simp add: st)
  from enc_step_reach [OF idx quantize_range this]
  have "\<bar>quantize (pcm16 ! i) - fst (enc_state pcm16 (Suc i))\<bar> \<le> step_table ! nat idx div 4"
    by (simp add: enc_state_Suc [OF assms] st)
  with quantize_error [of "pcm16 ! i"]
  show "\<bar>gp_adpcm_decode (gp_adpcm_encode pcm16) ! i - sint (pcm16 ! i)\<bar>
      \<le> 16 * (step_table ! nat (snd (enc_state pcm16 i)) div 4) + 16"
    unfolding nth by (simp add: st)
qed

lemma quantize_soft: "quantize 0x100 = 16"
  by (simp add: quantize_def max_amp_def)

theorem adpcm_roundtrip_in_reach_witness:
  "0 < length [0x100 :: 16 word]
   \<and> \<bar>quantize ([0x100] ! 0) - fst (enc_state [0x100] 0)\<bar>
        < 2 * (step_table ! nat (snd (enc_state [0x100] 0)))
   \<and> length (gp_adpcm_decode (gp_adpcm_encode [0x100])) = 2
   \<and> \<bar>gp_adpcm_decode (gp_adpcm_encode [0x100]) ! 0 - sint (0x100 :: 16 word)\<bar> \<le> 80"
proof -
  have st: "enc_state [0x100] 0 = (0, 0)" by (simp add: enc_state_def)
  have s: "step_table ! 0 = 16" by (simp add: step_table_def)
  have reach: "\<bar>quantize ([0x100] ! 0) - fst (enc_state [0x100] 0)\<bar>
        < 2 * (step_table ! nat (snd (enc_state [0x100] 0)))"
    by (simp add: st s quantize_soft)
  have a: "0 < length [0x100 :: 16 word]" by simp
  note t = adpcm_roundtrip_in_reach [OF a]
  have len: "length (gp_adpcm_decode (gp_adpcm_encode [0x100])) = 2"
    using t [THEN conjunct1] by simp
  have "\<bar>gp_adpcm_decode (gp_adpcm_encode [0x100]) ! 0 - sint ([0x100 :: 16 word] ! 0)\<bar>
      \<le> 16 * (step_table ! nat (snd (enc_state [0x100] 0)) div 4) + 16"
    using t [THEN conjunct2, THEN conjunct2, THEN mp, OF reach, THEN conjunct1] .
  then have b: "\<bar>gp_adpcm_decode (gp_adpcm_encode [0x100]) ! 0 - sint (0x100 :: 16 word)\<bar> \<le> 80"
    by (simp add: st s)
  from a reach len b show ?thesis by (intro conjI)
qed

end
